theory Spec2Isabelle
  imports Complex_Main "HOL-Library.Sublist" "HOL-Library.Char_ord" "HOL-Library.List_Lexorder"
begin

section \<open>Bayesian Context Trees: the data model\<close>

text \<open>
  The development embeds \<^verbatim>\<open>tree_class.py\<close> and \<^verbatim>\<open>bct_main_with_log.py\<close>.

  \<^item> A node is a Python \<^verbatim>\<open>str\<close>, here a \<^typ>\<open>string\<close>; the alphabet \<^verbatim>\<open>s\<close> is the
    string whose characters are the symbols (\<^verbatim>\<open>s = "012"\<close> in the repository's example), so
    \<^verbatim>\<open>b + parent\<close> is \<open>b # parent\<close> and \<^verbatim>\<open>node + b\<close> is \<open>node @ [b]\<close>.
  \<^item> Python integers are \<^typ>\<open>int\<close>; \<^verbatim>\<open>dmax\<close> may be negative.
  \<^item> A \<^verbatim>\<open>dict\<close> is a map, a \<^verbatim>\<open>set\<close> is a set. Iterating over a Python set visits
    every element once in an order the language does not fix; every function that iterates
    over \<^verbatim>\<open>tree.nodes\<close> takes that order as the parameter \<open>iter\<close>.
  \<^item> Exceptions are values of \<open>error\<close>; a function that may raise returns \<open>error + 'a\<close>.
  \<^item> Floating point numbers are idealised as \<^typ>\<open>real\<close>, \<^verbatim>\<open>np.log\<close> as \<^term>\<open>ln\<close> (which
    agrees with the logarithm on positive arguments only) and \<^verbatim>\<open>np.exp\<close> as \<^term>\<open>exp\<close>;
    sums are accumulated in the order of the source. The idealisation changes stored
    values by rounding; the one place where it could change a decision, the comparison of
    the pruning pass, is embedded over an arbitrary float arithmetic as well.
\<close>

datatype error = KeyError | AssertionError | RecursionError

type_synonym counter = "string \<rightharpoonup> int"

record Tree =
  tree_s :: string
  nodes :: "string set"
  edges :: "string \<rightharpoonup> string list"

text \<open>A \<^verbatim>\<open>for\<close> loop whose body may raise: the first exception ends the loop.\<close>

fun for_each :: "('st \<Rightarrow> 'a \<Rightarrow> error + 'st) \<Rightarrow> 'a list \<Rightarrow> 'st \<Rightarrow> error + 'st" where
  "for_each body [] st = Inr st"
| "for_each body (x # xs) st =
     (case body st x of Inl err \<Rightarrow> Inl err | Inr st' \<Rightarrow> for_each body xs st')"

subsection \<open>Python slices\<close>

text \<open>A slice bound \<open>k\<close> on a sequence of length \<open>n\<close>: negative bounds count from the end,
  and every bound is clamped to \<open>0..n\<close>.\<close>

definition py_bound :: "nat \<Rightarrow> int \<Rightarrow> nat" where
  "py_bound n k = nat (if k < 0 then max 0 (k + int n) else min k (int n))"

definition py_slice :: "'a list \<Rightarrow> int \<Rightarrow> int \<Rightarrow> 'a list" where
  "py_slice xs a b =
     (let lo = py_bound (length xs) a; hi = py_bound (length xs) b
      in take (hi - lo) (drop lo xs))"

definition py_slice_from :: "'a list \<Rightarrow> int \<Rightarrow> 'a list" where
  "py_slice_from xs a = drop (py_bound (length xs) a) xs"

definition py_slice_to :: "'a list \<Rightarrow> int \<Rightarrow> 'a list" where
  "py_slice_to xs b = take (py_bound (length xs) b) xs"

section \<open>The class Tree\<close>

definition Tree_init :: "string \<Rightarrow> Tree" where
  "Tree_init s = \<lparr>tree_s = s, nodes = {[]}, edges = Map.empty\<rparr>"

definition add_node :: "Tree \<Rightarrow> string \<Rightarrow> error + Tree" where
  "add_node t node =
     (let parent = drop 1 node in
      if parent \<notin> nodes t then Inl AssertionError
      else
        let siblings = map (\<lambda>b. b # parent) (tree_s t)
        in Inr (t\<lparr>nodes := nodes t \<union> set siblings,
                  edges := (edges t)(parent \<mapsto> siblings)\<rparr>))"

text \<open>
  \<^verbatim>\<open>prune_at_node\<close> calls itself on every child that is a key of \<^verbatim>\<open>edges\<close>. On a
  dictionary with a cycle the recursion never ends and Python raises \<^verbatim>\<open>RecursionError\<close>
  (which the \<^verbatim>\<open>except KeyError\<close> does not catch). The first argument bounds the depth of
  the call stack; \<open>None\<close> is that \<^verbatim>\<open>RecursionError\<close>. A missing key at
  \<^verbatim>\<open>self.edges[node]\<close> or at \<^verbatim>\<open>self.edges.pop(node)\<close> is caught and keeps the state
  reached so far.
\<close>

fun prune_at_node :: "nat \<Rightarrow> Tree \<Rightarrow> string \<Rightarrow> Tree option"
  and prune_children :: "nat \<Rightarrow> Tree \<Rightarrow> string list \<Rightarrow> Tree option" where
  "prune_at_node 0 t node = None"
| "prune_at_node (Suc d) t node =
     (case edges t node of
        None \<Rightarrow> Some t
      | Some children \<Rightarrow>
          (case prune_children d t children of
             None \<Rightarrow> None
           | Some t' \<Rightarrow> Some (t'\<lparr>edges := (edges t')(node := None)\<rparr>)))"
| "prune_children d t [] = Some t"
| "prune_children d t (child # rest) =
     (if edges t child = None
      then prune_children d (t\<lparr>nodes := nodes t - {child}\<rparr>) rest
      else (case prune_at_node d t child of
              None \<Rightarrow> None
            | Some t' \<Rightarrow> prune_children d (t'\<lparr>nodes := nodes t' - {child}\<rparr>) rest))"

section \<open>Maximal tree and transition counts\<close>

definition count_present :: "counter \<Rightarrow> string \<Rightarrow> counter" where
  "count_present counter present =
     (case counter present of
        None \<Rightarrow> counter(present \<mapsto> 1)
      | Some c \<Rightarrow> counter(present \<mapsto> c + 1))"

text \<open>The body of the inner loop of \<^verbatim>\<open>construct_tau_max\<close>, for one depth \<open>j\<close>.\<close>

definition scan_depth :: "string \<Rightarrow> Tree \<times> counter \<Rightarrow> int \<Rightarrow> error + Tree \<times> counter" where
  "scan_depth current_string tc j =
     (let present = py_slice_from current_string (- j - 1);
          past = py_slice_to present (- 1)
      in case (if 1 \<le> j \<and> past \<notin> nodes (fst tc) then add_node (fst tc) past
               else Inr (fst tc)) of
           Inl err \<Rightarrow> Inl err
         | Inr tree \<Rightarrow> Inr (tree, count_present (snd tc) present))"

text \<open>The body of the outer loop, for one position \<open>i\<close> of the joint sample.\<close>

definition scan_position ::
    "int \<Rightarrow> string \<Rightarrow> Tree \<times> counter \<Rightarrow> nat \<Rightarrow> error + Tree \<times> counter" where
  "scan_position dmax joint_sample tc i =
     (let current_string = py_slice joint_sample (int i - dmax) (int i + 1)
      in for_each (scan_depth current_string) [0..dmax] tc)"

text \<open>The second loop: unseen transitions of one node get the count 0.\<close>

definition fill_zero :: "string \<Rightarrow> counter \<Rightarrow> string \<Rightarrow> counter" where
  "fill_zero s counter node =
     fold (\<lambda>transition c. if c transition = None then c(transition \<mapsto> 0) else c)
          (map (\<lambda>b. node @ [b]) s) counter"

definition construct_tau_max ::
    "(string set \<Rightarrow> string list) \<Rightarrow> string \<Rightarrow> int \<Rightarrow> string \<Rightarrow> string
      \<Rightarrow> error + Tree \<times> counter" where
  "construct_tau_max iter s dmax sample initial_ctxt =
     (let joint_sample = initial_ctxt @ sample;
          tree = Tree_init s;
          counter = [[] \<mapsto> int (length sample)]
      in case for_each (scan_position dmax joint_sample)
                [length initial_ctxt ..< length joint_sample] (tree, counter) of
           Inl err \<Rightarrow> Inl err
         | Inr tc \<Rightarrow>
             Inr (fst tc, fold (\<lambda>node c. fill_zero s c node) (iter (nodes (fst tc))) (snd tc)))"

section \<open>Estimated probability\<close>

definition calc_log_pe :: "string \<Rightarrow> counter \<Rightarrow> string \<Rightarrow> error + real" where
  "calc_log_pe s counter u =
     (case those (map (\<lambda>b. counter (u @ [b])) s) of
        None \<Rightarrow> Inl KeyError
      | Some transition_counts \<Rightarrow>
          if transition_counts = replicate (length s) 0 then Inr 0
          else
            let log_numerator =
                  foldl (\<lambda>acc count.
                           foldl (\<lambda>acc' n. acc' + ln (real_of_int n - 0.5)) acc [1..count])
                        0 transition_counts;
                m = length s;
                nu = sum_list transition_counts;
                log_denominator =
                  foldl (\<lambda>acc n. acc + ln (real_of_int n + real m / 2 - 1)) 0 [1..nu]
            in Inr (log_numerator - log_denominator))"

text \<open>The dictionary comprehension \<^verbatim>\<open>{u: calc_log_pe(s, counter, u) for u in tau.nodes}\<close>.\<close>

definition log_pe_dict_of ::
    "(string set \<Rightarrow> string list) \<Rightarrow> string \<Rightarrow> counter \<Rightarrow> Tree \<Rightarrow> error + (string \<rightharpoonup> real)" where
  "log_pe_dict_of iter s counter tau =
     for_each (\<lambda>d u. case calc_log_pe s counter u of
                       Inl err \<Rightarrow> Inl err
                     | Inr v \<Rightarrow> Inr (d(u \<mapsto> v)))
              (iter (nodes tau)) Map.empty"

section \<open>Maximal probability\<close>

definition sum_child_log_pm :: "(string \<rightharpoonup> real) \<Rightarrow> string list \<Rightarrow> error + real" where
  "sum_child_log_pm log_pm_dict children =
     for_each (\<lambda>acc child. case log_pm_dict child of
                              None \<Rightarrow> Inl KeyError
                            | Some v \<Rightarrow> Inr (acc + v))
              children 0"

text \<open>The body of the loop over \<^verbatim>\<open>cur_nodes\<close>, for one node of length \<open>sz\<close> (the source's \<^verbatim>\<open>size\<close>).\<close>

definition log_pm_node ::
    "int \<Rightarrow> real \<Rightarrow> Tree \<Rightarrow> (string \<rightharpoonup> real) \<Rightarrow> int \<Rightarrow> (string \<rightharpoonup> real) \<Rightarrow> string
      \<Rightarrow> error + (string \<rightharpoonup> real)" where
  "log_pm_node dmax beta tree log_pe_dict sz log_pm_dict node =
     (if sz = dmax then
        (case log_pe_dict node of
           None \<Rightarrow> Inl KeyError
         | Some pe \<Rightarrow> Inr (log_pm_dict(node \<mapsto> pe)))
      else
        (case edges tree node of
           None \<Rightarrow> Inr (log_pm_dict(node \<mapsto> ln beta))
         | Some children \<Rightarrow>
             (case sum_child_log_pm log_pm_dict children of
                Inl err \<Rightarrow> Inl err
              | Inr sum_child \<Rightarrow>
                  (case log_pe_dict node of
                     None \<Rightarrow> Inl KeyError
                   | Some pe \<Rightarrow>
                       Inr (log_pm_dict(node \<mapsto>
                              max (ln beta + pe) (ln (1 - beta) + sum_child)))))))"

definition log_pm_level ::
    "(string set \<Rightarrow> string list) \<Rightarrow> int \<Rightarrow> real \<Rightarrow> Tree \<Rightarrow> (string \<rightharpoonup> real)
      \<Rightarrow> (string \<rightharpoonup> real) \<Rightarrow> int \<Rightarrow> error + (string \<rightharpoonup> real)" where
  "log_pm_level iter dmax beta tree log_pe_dict log_pm_dict sz =
     (let cur_nodes = filter (\<lambda>node. int (length node) = sz) (iter (nodes tree))
      in for_each (log_pm_node dmax beta tree log_pe_dict sz) cur_nodes log_pm_dict)"

definition construct_log_pm_dict ::
    "(string set \<Rightarrow> string list) \<Rightarrow> string \<Rightarrow> int \<Rightarrow> real \<Rightarrow> Tree \<Rightarrow> (string \<rightharpoonup> real)
      \<Rightarrow> error + (string \<rightharpoonup> real)" where
  "construct_log_pm_dict iter s dmax beta tree log_pe_dict =
     for_each (log_pm_level iter dmax beta tree log_pe_dict) (rev [0..dmax]) Map.empty"

section \<open>The pruning pass and the entry point\<close>

text \<open>One turn of the \<^verbatim>\<open>while queue\<close> loop: \<open>node\<close> is the head of the queue, \<open>rest\<close>
  what \<^verbatim>\<open>queue.remove(node)\<close> leaves.\<close>

definition bct_visit ::
    "nat \<Rightarrow> real \<Rightarrow> (string \<rightharpoonup> real) \<Rightarrow> (string \<rightharpoonup> real) \<Rightarrow> Tree \<Rightarrow> string \<Rightarrow> string list
      \<Rightarrow> error + string list \<times> Tree" where
  "bct_visit depth beta log_pe_dict log_pm_dict tau node rest =
     (case edges tau node of
        None \<Rightarrow> Inr (rest, tau)
      | Some children \<Rightarrow>
          (case sum_child_log_pm log_pm_dict children of
             Inl err \<Rightarrow> Inl err
           | Inr sum_child \<Rightarrow>
               (case log_pe_dict node of
                  None \<Rightarrow> Inl KeyError
                | Some pe \<Rightarrow>
                    if ln beta + pe > ln (1 - beta) + sum_child then
                      (case prune_at_node depth tau node of
                         None \<Rightarrow> Inl RecursionError
                       | Some tau' \<Rightarrow> Inr (rest, tau'))
                    else Inr (rest @ children, tau))))"

partial_function (option) bct_queue ::
    "nat \<Rightarrow> real \<Rightarrow> (string \<rightharpoonup> real) \<Rightarrow> (string \<rightharpoonup> real) \<Rightarrow> string list \<Rightarrow> Tree
      \<Rightarrow> (error + Tree) option" where
  "bct_queue depth beta log_pe_dict log_pm_dict queue tau =
     (case queue of
        [] \<Rightarrow> Some (Inr tau)
      | node # rest \<Rightarrow>
          (case bct_visit depth beta log_pe_dict log_pm_dict tau node rest of
             Inl err \<Rightarrow> Some (Inl err)
           | Inr qt \<Rightarrow> bct_queue depth beta log_pe_dict log_pm_dict (fst qt) (snd qt)))"

text \<open>\<open>bct\<close> returns \<open>None\<close> when the pruning loop never ends, \<open>Some (Inl err)\<close> when an
  exception leaves the function and \<open>Some (Inr (tau, pm_root))\<close> otherwise. \<open>depth\<close> is the
  interpreter's recursion limit as seen from \<^verbatim>\<open>prune_at_node\<close>.\<close>

definition bct ::
    "(string set \<Rightarrow> string list) \<Rightarrow> nat \<Rightarrow> string \<Rightarrow> int \<Rightarrow> real \<Rightarrow> string \<Rightarrow> string
      \<Rightarrow> (error + Tree \<times> real) option" where
  "bct iter depth s dmax beta sample initial_ctxt =
     (case construct_tau_max iter s dmax sample initial_ctxt of
        Inl err \<Rightarrow> Some (Inl err)
      | Inr tc \<Rightarrow>
          (case log_pe_dict_of iter s (snd tc) (fst tc) of
             Inl err \<Rightarrow> Some (Inl err)
           | Inr log_pe_dict \<Rightarrow>
               (case construct_log_pm_dict iter s dmax beta (fst tc) log_pe_dict of
                  Inl err \<Rightarrow> Some (Inl err)
                | Inr log_pm_dict \<Rightarrow>
                    (case bct_queue depth beta log_pe_dict log_pm_dict [[]] (fst tc) of
                       None \<Rightarrow> None
                     | Some (Inl err) \<Rightarrow> Some (Inl err)
                     | Some (Inr tau) \<Rightarrow>
                         (case log_pm_dict [] of
                            None \<Rightarrow> Some (Inl KeyError)
                          | Some v \<Rightarrow> Some (Inr (tau, exp v)))))))"

text \<open>What the iteration over a Python set guarantees: every element, once.\<close>

definition set_iteration :: "(string set \<Rightarrow> string list) \<Rightarrow> bool" where
  "set_iteration iter \<longleftrightarrow> (\<forall>A. finite A \<longrightarrow> set (iter A) = A \<and> distinct (iter A))"

section \<open>The pruning turn over an arbitrary float arithmetic\<close>

text \<open>
  Line 63 of \<^verbatim>\<open>bct\<close> compares two float64 values, and which side is greater can depend on
  rounding. To state the decision about the values the program computes, the turn of the
  \<^verbatim>\<open>while queue\<close> loop and the loop itself are embedded a second time over an arbitrary
  type \<open>'f\<close> of floats, with the operations the source uses as the parameter \<open>ops\<close>:
  \<^verbatim>\<open>0.0\<close>, \<^verbatim>\<open>1\<close>, \<^verbatim>\<open>+\<close>, \<^verbatim>\<open>-\<close>, \<^verbatim>\<open>np.log\<close> and \<^verbatim>\<open>>\<close>. Nothing is assumed of them, so what
  is proved of \<open>bct_visit_fp\<close> holds of IEEE doubles. \<open>bct_visit\<close> is the instance \<open>real_ops\<close>.
\<close>

record 'f float_ops =
  f_zero :: 'f
  f_one :: 'f
  f_add :: "'f \<Rightarrow> 'f \<Rightarrow> 'f"
  f_sub :: "'f \<Rightarrow> 'f \<Rightarrow> 'f"
  f_log :: "'f \<Rightarrow> 'f"
  f_gt :: "'f \<Rightarrow> 'f \<Rightarrow> bool"

definition real_ops :: "real float_ops" where
  "real_ops = \<lparr>f_zero = 0, f_one = 1, f_add = (+), f_sub = (-), f_log = ln,
               f_gt = (\<lambda>x y. x > y)\<rparr>"

definition sum_child_log_pm_fp ::
    "'f float_ops \<Rightarrow> (string \<rightharpoonup> 'f) \<Rightarrow> string list \<Rightarrow> error + 'f" where
  "sum_child_log_pm_fp ops log_pm_dict children =
     for_each (\<lambda>acc child. case log_pm_dict child of
                              None \<Rightarrow> Inl KeyError
                            | Some v \<Rightarrow> Inr (f_add ops acc v))
              children (f_zero ops)"

definition bct_visit_fp ::
    "'f float_ops \<Rightarrow> nat \<Rightarrow> 'f \<Rightarrow> (string \<rightharpoonup> 'f) \<Rightarrow> (string \<rightharpoonup> 'f) \<Rightarrow> Tree \<Rightarrow> string
      \<Rightarrow> string list \<Rightarrow> error + string list \<times> Tree" where
  "bct_visit_fp ops depth beta log_pe_dict log_pm_dict tau node rest =
     (case edges tau node of
        None \<Rightarrow> Inr (rest, tau)
      | Some children \<Rightarrow>
          (case sum_child_log_pm_fp ops log_pm_dict children of
             Inl err \<Rightarrow> Inl err
           | Inr sum_child \<Rightarrow>
               (case log_pe_dict node of
                  None \<Rightarrow> Inl KeyError
                | Some pe \<Rightarrow>
                    if f_gt ops (f_add ops (f_log ops beta) pe)
                                (f_add ops (f_log ops (f_sub ops (f_one ops) beta)) sum_child)
                    then
                      (case prune_at_node depth tau node of
                         None \<Rightarrow> Inl RecursionError
                       | Some tau' \<Rightarrow> Inr (rest, tau'))
                    else Inr (rest @ children, tau))))"

partial_function (option) bct_queue_fp ::
    "'f float_ops \<Rightarrow> nat \<Rightarrow> 'f \<Rightarrow> (string \<rightharpoonup> 'f) \<Rightarrow> (string \<rightharpoonup> 'f) \<Rightarrow> string list \<Rightarrow> Tree
      \<Rightarrow> (error + Tree) option" where
  "bct_queue_fp ops depth beta log_pe_dict log_pm_dict queue tau =
     (case queue of
        [] \<Rightarrow> Some (Inr tau)
      | node # rest \<Rightarrow>
          (case bct_visit_fp ops depth beta log_pe_dict log_pm_dict tau node rest of
             Inl err \<Rightarrow> Some (Inl err)
           | Inr qt \<Rightarrow> bct_queue_fp ops depth beta log_pe_dict log_pm_dict (fst qt) (snd qt)))"

section \<open>Specification of the tree operations\<close>

text \<open>
  The structural invariant as the specification words it: every key of \<open>edges\<close> maps to its
  \<open>m\<close> children \<open>b + key\<close>, all of them nodes; a node of positive length has its parent and
  all its siblings among the nodes; the root is a node.
\<close>

definition tree_inv :: "Tree \<Rightarrow> bool" where
  "tree_inv t \<longleftrightarrow>
     (\<forall>k cs. edges t k = Some cs \<longrightarrow>
        cs = map (\<lambda>b. b # k) (tree_s t) \<and> set cs \<subseteq> nodes t) \<and>
     (\<forall>u\<in>nodes t. u \<noteq> [] \<longrightarrow>
        tl u \<in> nodes t \<and> (\<forall>b\<in>set (tree_s t). b # tl u \<in> nodes t)) \<and>
     [] \<in> nodes t"

text \<open>
  The invariant the class really maintains is stronger, and is the one that is inductive:
  the node set is finite, every key is a node, and every node of positive length starts with
  a symbol of the alphabet and has its parent among the keys.
\<close>

definition tree_wf :: "Tree \<Rightarrow> bool" where
  "tree_wf t \<longleftrightarrow>
     [] \<in> nodes t \<and> finite (nodes t) \<and>
     (\<forall>k cs. edges t k = Some cs \<longrightarrow> cs = map (\<lambda>b. b # k) (tree_s t)) \<and>
     (\<forall>k. edges t k \<noteq> None \<longrightarrow> k \<in> nodes t) \<and>
     (\<forall>u\<in>nodes t. u \<noteq> [] \<longrightarrow> edges t (tl u) \<noteq> None \<and> hd u \<in> set (tree_s t)) \<and>
     (\<forall>k. edges t k \<noteq> None \<longrightarrow> (\<forall>b\<in>set (tree_s t). b # k \<in> nodes t))"

text \<open>
  While \<open>prune_at_node\<close> works through the children of \<open>node\<close> the tree is not well formed;
  what still holds is the part of \<open>tree_wf\<close> that concerns the subtree below \<open>node\<close>, with
  keys shorter than \<open>D\<close>.
\<close>

definition below_ok :: "nat \<Rightarrow> Tree \<Rightarrow> string \<Rightarrow> bool" where
  "below_ok D t node \<longleftrightarrow>
     (\<forall>k cs. edges t k = Some cs \<longrightarrow> cs = map (\<lambda>b. b # k) (tree_s t)) \<and>
     (\<forall>k. edges t k \<noteq> None \<longrightarrow> length k < D) \<and>
     (\<forall>u\<in>nodes t. strict_suffix node u \<longrightarrow>
        edges t (tl u) \<noteq> None \<and> hd u \<in> set (tree_s t)) \<and>
     (\<forall>k. edges t k \<noteq> None \<longrightarrow> strict_suffix node k \<longrightarrow>
        edges t (tl k) \<noteq> None \<and> hd k \<in> set (tree_s t))"

text \<open>The tree without \<open>c\<close> and everything below it, and the tree in which \<open>node\<close> has
  become a leaf: descendants of a node are the strings that end with it.\<close>

definition without_subtree :: "Tree \<Rightarrow> string \<Rightarrow> Tree" where
  "without_subtree t c =
     t\<lparr>nodes := nodes t - {u. suffix c u},
       edges := (\<lambda>k. if suffix c k then None else edges t k)\<rparr>"

definition subtree_removed :: "Tree \<Rightarrow> string \<Rightarrow> Tree" where
  "subtree_removed t node =
     t\<lparr>nodes := nodes t - {u. strict_suffix node u},
       edges := (\<lambda>k. if suffix node k then None else edges t k)\<rparr>"

text \<open>The trees a client of the class can hold: a fresh tree, then any sequence of
  \<open>add_node\<close> calls whose assertion holds and of \<open>prune_at_node\<close> calls that return.\<close>

inductive reachable :: "string \<Rightarrow> Tree \<Rightarrow> bool" for s :: string where
  fresh: "reachable s (Tree_init s)"
| added: "reachable s t \<Longrightarrow> add_node t node = Inr t' \<Longrightarrow> reachable s t'"
| pruned: "reachable s t \<Longrightarrow> prune_at_node d t node = Some t' \<Longrightarrow> reachable s t'"

section \<open>Specification of the maximal-probability pass\<close>

text \<open>
  The value that the body of the loop over \<open>cur_nodes\<close> stores for one node, read off the
  dictionary built so far, and the effect of a whole level on that dictionary. Both are
  compared with the loops of the source below.
\<close>

definition log_pm_value ::
    "int \<Rightarrow> real \<Rightarrow> Tree \<Rightarrow> (string \<rightharpoonup> real) \<Rightarrow> int \<Rightarrow> (string \<rightharpoonup> real) \<Rightarrow> string
      \<Rightarrow> error + real" where
  "log_pm_value dmax beta tree log_pe_dict sz log_pm_dict node =
     (if sz = dmax then
        (case log_pe_dict node of None \<Rightarrow> Inl KeyError | Some pe \<Rightarrow> Inr pe)
      else
        (case edges tree node of
           None \<Rightarrow> Inr (ln beta)
         | Some children \<Rightarrow>
             (if \<forall>c\<in>set children. log_pm_dict c \<noteq> None then
                (case log_pe_dict node of
                   None \<Rightarrow> Inl KeyError
                 | Some pe \<Rightarrow>
                     Inr (max (ln beta + pe)
                              (ln (1 - beta) + (\<Sum>c\<leftarrow>children. the (log_pm_dict c)))))
              else Inl KeyError)))"

definition level_result ::
    "((string \<rightharpoonup> real) \<Rightarrow> string \<Rightarrow> error + real) \<Rightarrow> string set \<Rightarrow> (string \<rightharpoonup> real)
      \<Rightarrow> error + (string \<rightharpoonup> real)" where
  "level_result V L pm =
     (if \<exists>u\<in>L. isl (V pm u) then Inl KeyError
      else Inr (\<lambda>u. if u \<in> L then Some (projr (V pm u)) else pm u))"

section \<open>Specification of the scan\<close>

text \<open>
  At position \<open>i\<close> of the joint sample and depth \<open>j\<close>, the source's \<open>present\<close> is the
  context of length \<open>j\<close> followed by the transition symbol at \<open>i\<close>, and \<open>past\<close> is that
  context: the last \<open>j\<close> symbols before position \<open>i\<close>. \<open>presents_of\<close> lists the strings
  counted at one position, \<open>scan_ok\<close> is what the scan maintains on every input.
\<close>

definition present_at :: "string \<Rightarrow> nat \<Rightarrow> nat \<Rightarrow> string" where
  "present_at joint_sample i j = take (Suc j) (drop (i - j) joint_sample)"

definition past_at :: "string \<Rightarrow> nat \<Rightarrow> nat \<Rightarrow> string" where
  "past_at joint_sample i j = take j (drop (i - j) joint_sample)"

definition presents_of :: "string \<Rightarrow> nat \<Rightarrow> nat \<Rightarrow> string list" where
  "presents_of joint_sample dm i = map (present_at joint_sample i) [0..<Suc dm]"

definition scan_ok :: "string \<Rightarrow> int \<Rightarrow> Tree \<times> counter \<Rightarrow> bool" where
  "scan_ok s dmax tc \<longleftrightarrow>
     tree_wf (fst tc) \<and> tree_s (fst tc) = s \<and> (\<forall>u\<in>nodes (fst tc). int (length u) \<le> max 0 dmax)"

section \<open>Properties of the class Tree\<close>

lemma tree_wf_inv: "tree_wf t \<Longrightarrow> tree_inv t"
proof -
  assume wf: "tree_wf t"
  have e: "\<And>k cs. edges t k = Some cs \<Longrightarrow> cs = map (\<lambda>b. b # k) (tree_s t)"
    and ch: "\<And>k b. edges t k \<noteq> None \<Longrightarrow> b \<in> set (tree_s t) \<Longrightarrow> b # k \<in> nodes t"
    and dm: "\<And>k. edges t k \<noteq> None \<Longrightarrow> k \<in> nodes t"
    and up: "\<And>u. u \<in> nodes t \<Longrightarrow> u \<noteq> [] \<Longrightarrow> edges t (tl u) \<noteq> None"
    and r: "[] \<in> nodes t"
    using wf unfolding tree_wf_def by blast+
  have 1: "cs = map (\<lambda>b. b # k) (tree_s t) \<and> set cs \<subseteq> nodes t" if "edges t k = Some cs" for k cs
  proof -
    have c: "cs = map (\<lambda>b. b # k) (tree_s t)" using e that by blast
    have "edges t k \<noteq> None" using that by simp
    then have "\<And>b. b \<in> set (tree_s t) \<Longrightarrow> b # k \<in> nodes t" using ch by blast
    then show ?thesis using c by auto
  qed
  have 2: "tl u \<in> nodes t \<and> (\<forall>b\<in>set (tree_s t). b # tl u \<in> nodes t)"
    if "u \<in> nodes t" "u \<noteq> []" for u
    using up [OF that] dm ch by blast
  show ?thesis unfolding tree_inv_def using 1 2 r by blast
qed

lemma tree_wf_init: "tree_wf (Tree_init s)"
  by (simp add: tree_wf_def Tree_init_def)

lemma add_node_Inr:
  "add_node t node = Inr t' \<longleftrightarrow>
     drop 1 node \<in> nodes t \<and>
     t' = t\<lparr>nodes := nodes t \<union> (\<lambda>b. b # drop 1 node) ` set (tree_s t),
            edges := (edges t)(drop 1 node \<mapsto> map (\<lambda>b. b # drop 1 node) (tree_s t))\<rparr>"
  by (auto simp: add_node_def Let_def)

lemma tree_wf_add_node:
  assumes "tree_wf t" "add_node t node = Inr t'"
  shows "tree_wf t'"
proof -
  from assms(2) have p: "drop 1 node \<in> nodes t"
    and t': "t' = t\<lparr>nodes := nodes t \<union> (\<lambda>b. b # drop 1 node) ` set (tree_s t),
                    edges := (edges t)(drop 1 node \<mapsto> map (\<lambda>b. b # drop 1 node) (tree_s t))\<rparr>"
    by (simp_all add: add_node_Inr)
  have e: "\<And>k cs. edges t k = Some cs \<Longrightarrow> cs = map (\<lambda>b. b # k) (tree_s t)"
    and ch: "\<And>k b. edges t k \<noteq> None \<Longrightarrow> b \<in> set (tree_s t) \<Longrightarrow> b # k \<in> nodes t"
    and dm: "\<And>k. edges t k \<noteq> None \<Longrightarrow> k \<in> nodes t"
    and up: "\<And>u. u \<in> nodes t \<Longrightarrow> u \<noteq> [] \<Longrightarrow> edges t (tl u) \<noteq> None \<and> hd u \<in> set (tree_s t)"
    and r: "[] \<in> nodes t" and f: "finite (nodes t)"
    using assms(1) unfolding tree_wf_def by blast+
  have "[] \<in> nodes t'" using r by (simp add: t')
  moreover have "finite (nodes t')" using f by (simp add: t')
  moreover have "\<forall>k cs. edges t' k = Some cs \<longrightarrow> cs = map (\<lambda>b. b # k) (tree_s t')"
    using e by (auto simp: t')
  moreover have "\<forall>k. edges t' k \<noteq> None \<longrightarrow> k \<in> nodes t'"
    using dm p by (auto simp: t')
  moreover have "\<forall>u\<in>nodes t'. u \<noteq> [] \<longrightarrow> edges t' (tl u) \<noteq> None \<and> hd u \<in> set (tree_s t')"
    using up by (auto simp: t')
  moreover have "\<forall>k. edges t' k \<noteq> None \<longrightarrow> (\<forall>b\<in>set (tree_s t'). b # k \<in> nodes t')"
    using ch by (auto simp: t')
  ultimately show ?thesis unfolding tree_wf_def by blast
qed

lemma add_node_tree_s: "add_node t node = Inr t' \<Longrightarrow> tree_s t' = tree_s t"
  by (simp add: add_node_Inr)

lemma prune_children_fuel_step:
  assumes "\<And>t node t'. prune_at_node d t node = Some t' \<Longrightarrow> prune_at_node (Suc d) t node = Some t'"
  shows "prune_children d t cs = Some t' \<Longrightarrow> prune_children (Suc d) t cs = Some t'"
proof (induction cs arbitrary: t)
  case Nil
  then show ?case by simp
next
  case (Cons child rest)
  show ?case
  proof (cases "edges t child = None")
    case True
    then show ?thesis using Cons by simp
  next
    case False
    then obtain t1 where t1: "prune_at_node d t child = Some t1"
      and r: "prune_children d (t1\<lparr>nodes := nodes t1 - {child}\<rparr>) rest = Some t'"
      using Cons.prems by (auto split: option.splits)
    have "prune_at_node (Suc d) t child = Some t1" using assms t1 by blast
    moreover have "prune_children (Suc d) (t1\<lparr>nodes := nodes t1 - {child}\<rparr>) rest = Some t'"
      using Cons.IH r by blast
    ultimately show ?thesis using False by (auto simp del: prune_at_node.simps)
  qed
qed

lemma prune_fuel_Suc:
  "prune_at_node d t node = Some t' \<Longrightarrow> prune_at_node (Suc d) t node = Some t'"
proof (induction d arbitrary: t node t')
  case 0
  then show ?case by simp
next
  case (Suc d)
  show ?case
  proof (cases "edges t node")
    case None
    then show ?thesis using Suc.prems by simp
  next
    case (Some cs)
    then obtain t1 where t1: "prune_children d t cs = Some t1"
      and t': "t' = t1\<lparr>edges := (edges t1)(node := None)\<rparr>"
      using Suc.prems by (auto split: option.splits)
    have "prune_children (Suc d) t cs = Some t1"
      using prune_children_fuel_step [OF Suc.IH t1] .
    then show ?thesis using Some t' by simp
  qed
qed

lemma prune_fuel_mono:
  "prune_at_node d t node = Some t' \<Longrightarrow> d \<le> d' \<Longrightarrow> prune_at_node d' t node = Some t'"
proof (induction d' arbitrary: )
  case 0
  then show ?case by simp
next
  case (Suc d')
  show ?case
  proof (cases "d = Suc d'")
    case True
    then show ?thesis using Suc.prems by simp
  next
    case False
    then have "d \<le> d'" using Suc.prems by simp
    then have "prune_at_node d' t node = Some t'" using Suc by blast
    then show ?thesis by (rule prune_fuel_Suc)
  qed
qed

lemma strict_suffix_ex_Cons: "strict_suffix xs ys \<Longrightarrow> \<exists>b. suffix (b # xs) ys"
proof -
  assume "strict_suffix xs ys"
  then obtain zs where z: "ys = zs @ xs" "zs \<noteq> []"
    by (auto simp: strict_suffix_def suffix_def)
  then have "ys = butlast zs @ (last zs # xs)" by simp
  then show ?thesis unfolding suffix_def by blast
qed

lemma suffix_Cons_strict: "suffix (b # xs) ys \<Longrightarrow> strict_suffix xs ys"
  by (metis suffix_ConsD' suffix_order.dual_order.strict_trans1 suffix_order.order_refl strict_suffix_def suffix_Cons suffix_order.less_le_not_le not_Cons_self2 suffix_order.antisym)

lemma strict_suffix_tl: "strict_suffix xs ys \<Longrightarrow> suffix xs (tl ys)"
  by (cases ys) (auto simp: strict_suffix_def suffix_Cons)

lemma below_ok_key_chain:
  assumes "below_ok D t node"
  shows "edges t k \<noteq> None \<Longrightarrow> suffix node k \<Longrightarrow> edges t node \<noteq> None"
proof (induction k)
  case Nil
  then show ?case by simp
next
  case (Cons x k)
  show ?case
  proof (cases "node = x # k")
    case True
    then show ?thesis using Cons.prems by simp
  next
    case False
    then have ss: "strict_suffix node (x # k)" using Cons.prems by (simp add: strict_suffix_def)
    then have "edges t (tl (x # k)) \<noteq> None"
      using assms Cons.prems(1) unfolding below_ok_def by blast
    moreover have "suffix node k" using strict_suffix_tl [OF ss] by simp
    ultimately show ?thesis using Cons.IH by simp
  qed
qed

lemma below_ok_node_chain:
  assumes "below_ok D t node" "u \<in> nodes t" "strict_suffix node u"
  shows "edges t node \<noteq> None"
proof -
  have "edges t (tl u) \<noteq> None" using assms unfolding below_ok_def by blast
  then show ?thesis using below_ok_key_chain [OF assms(1)] strict_suffix_tl [OF assms(3)] by blast
qed

lemma below_ok_child: "below_ok D t node \<Longrightarrow> below_ok D t (b # node)"
  unfolding below_ok_def
  by (meson suffix_ConsD suffix_order.dual_order.strict_trans2 suffix_order.less_imp_le suffix_Cons_strict suffix_order.order_refl)

lemma below_ok_symbol_key:
  assumes "below_ok D t node" "edges t k \<noteq> None" "suffix (b # node) k"
  shows "b \<in> set (tree_s t)"
proof -
  have c: "below_ok D t (b # node)" using assms(1) by (rule below_ok_child)
  have e: "edges t (b # node) \<noteq> None" using below_ok_key_chain [OF c assms(2,3)] .
  have "strict_suffix node (b # node)" using suffix_Cons_strict [of b node "b # node"] by simp
  then have "hd (b # node) \<in> set (tree_s t)" using assms(1) e unfolding below_ok_def by blast
  then show ?thesis by simp
qed

lemma below_ok_symbol_node:
  assumes "below_ok D t node" "u \<in> nodes t" "suffix (b # node) u"
  shows "b \<in> set (tree_s t)"
proof (cases "u = b # node")
  case True
  have "strict_suffix node u" using assms(3) by (rule suffix_Cons_strict)
  then have "hd u \<in> set (tree_s t)" using assms(1,2) unfolding below_ok_def by blast
  then show ?thesis using True by simp
next
  case False
  then have ss: "strict_suffix (b # node) u" using assms(3) by (simp add: strict_suffix_def)
  have c: "below_ok D t (b # node)" using assms(1) by (rule below_ok_child)
  have e: "edges t (b # node) \<noteq> None" using below_ok_node_chain [OF c assms(2) ss] .
  show ?thesis using below_ok_symbol_key [OF assms(1) e] by simp
qed

lemma without_subtree_leaf:
  assumes "below_ok D t c" "edges t c = None"
  shows "t\<lparr>nodes := nodes t - {c}\<rparr> = without_subtree t c"
proof -
  have n: "nodes t - {c} = nodes t - {u. suffix c u}"
  proof -
    have "u = c" if "u \<in> nodes t" "suffix c u" for u
    proof (rule ccontr)
      assume "u \<noteq> c"
      then have "strict_suffix c u" using that(2) by (auto simp: strict_suffix_def)
      then show False using below_ok_node_chain [OF assms(1) that(1)] assms(2) by blast
    qed
    then show ?thesis by auto
  qed
  have e: "(\<lambda>k. if suffix c k then None else edges t k) = edges t"
  proof
    fix k
    have "edges t k = None" if "suffix c k"
      using below_ok_key_chain [OF assms(1) _ that] assms(2) by blast
    then show "(if suffix c k then None else edges t k) = edges t k"
      by simp
  qed
  show ?thesis unfolding without_subtree_def n e by simp
qed

lemma subtree_removed_leaf:
  assumes "below_ok D t node" "edges t node = None"
  shows "subtree_removed t node = t"
proof -
  have n: "nodes t - {u. strict_suffix node u} = nodes t"
    using below_ok_node_chain [OF assms(1)] assms(2) by blast
  have e: "(\<lambda>k. if suffix node k then None else edges t k) = edges t"
  proof
    fix k
    have "edges t k = None" if "suffix node k"
      using below_ok_key_chain [OF assms(1) _ that] assms(2) by blast
    then show "(if suffix node k then None else edges t k) = edges t k"
      by simp
  qed
  show ?thesis unfolding subtree_removed_def n e by simp
qed

lemma without_subtree_after_removed:
  "(subtree_removed t c)\<lparr>nodes := nodes (subtree_removed t c) - {c}\<rparr> = without_subtree t c"
proof -
  have "nodes t - {u. strict_suffix c u} - {c} = nodes t - {u. suffix c u}"
    by (auto simp: strict_suffix_def)
  then show ?thesis by (simp add: subtree_removed_def without_subtree_def)
qed

lemma below_ok_without_subtree:
  assumes "below_ok D t node"
  shows "below_ok D (without_subtree t (b # node)) node"
proof -
  have tl_suf: "\<And>u. suffix (b # node) (tl u) \<Longrightarrow> suffix (b # node) u"
    by (metis list.sel(2) suffix_tl suffix_order.trans)
  let ?t = "without_subtree t (b # node)"
  have e: "\<And>k cs. edges t k = Some cs \<Longrightarrow> cs = map (\<lambda>b. b # k) (tree_s t)"
    and bd: "\<And>k. edges t k \<noteq> None \<Longrightarrow> length k < D"
    and up: "\<And>u. u \<in> nodes t \<Longrightarrow> strict_suffix node u
               \<Longrightarrow> edges t (tl u) \<noteq> None \<and> hd u \<in> set (tree_s t)"
    and upk: "\<And>k. edges t k \<noteq> None \<Longrightarrow> strict_suffix node k
               \<Longrightarrow> edges t (tl k) \<noteq> None \<and> hd k \<in> set (tree_s t)"
    using assms unfolding below_ok_def by blast+
  have ed: "edges ?t k = (if suffix (b # node) k then None else edges t k)" for k
    by (simp add: without_subtree_def)
  have nd: "nodes ?t = nodes t - {u. suffix (b # node) u}"
    by (simp add: without_subtree_def)
  have ts: "tree_s ?t = tree_s t" by (simp add: without_subtree_def)
  have 1: "\<forall>k cs. edges ?t k = Some cs \<longrightarrow> cs = map (\<lambda>b. b # k) (tree_s ?t)"
    using e by (auto simp: ed ts split: if_splits)
  have 2: "\<forall>k. edges ?t k \<noteq> None \<longrightarrow> length k < D"
    using bd by (auto simp: ed split: if_splits)
  have 3: "\<forall>u\<in>nodes ?t. strict_suffix node u \<longrightarrow>
        edges ?t (tl u) \<noteq> None \<and> hd u \<in> set (tree_s ?t)"
  proof (intro ballI impI)
    fix u assume u: "u \<in> nodes ?t" "strict_suffix node u"
    then have "u \<in> nodes t" "\<not> suffix (b # node) u" by (simp_all add: nd)
    then have "\<not> suffix (b # node) (tl u)" "edges t (tl u) \<noteq> None \<and> hd u \<in> set (tree_s t)"
      using tl_suf up u(2) by blast+
    then show "edges ?t (tl u) \<noteq> None \<and> hd u \<in> set (tree_s ?t)" by (simp add: ed ts)
  qed
  have 4: "\<forall>k. edges ?t k \<noteq> None \<longrightarrow> strict_suffix node k \<longrightarrow>
        edges ?t (tl k) \<noteq> None \<and> hd k \<in> set (tree_s ?t)"
  proof (intro allI impI)
    fix k assume k: "edges ?t k \<noteq> None" "strict_suffix node k"
    then have "edges t k \<noteq> None" "\<not> suffix (b # node) k" by (auto simp: ed split: if_splits)
    then have "\<not> suffix (b # node) (tl k)" "edges t (tl k) \<noteq> None \<and> hd k \<in> set (tree_s t)"
      using tl_suf upk k(2) by blast+
    then show "edges ?t (tl k) \<noteq> None \<and> hd k \<in> set (tree_s ?t)" by (simp add: ed ts)
  qed
  show ?thesis unfolding below_ok_def using 1 2 3 4 by blast
qed

lemma prune_children_removes:
  assumes IH: "\<And>t c. below_ok D t c \<Longrightarrow> D \<le> d + length c
                 \<Longrightarrow> prune_at_node (Suc d) t c = Some (subtree_removed t c)"
    and D: "D \<le> Suc d + length node"
  shows "below_ok D t node \<Longrightarrow>
     prune_children (Suc d) t (map (\<lambda>b. b # node) bs) =
       Some (t\<lparr>nodes := nodes t - {u. \<exists>b\<in>set bs. suffix (b # node) u},
               edges := (\<lambda>k. if \<exists>b\<in>set bs. suffix (b # node) k then None else edges t k)\<rparr>)"
proof (induction bs arbitrary: t)
  case Nil
  then show ?case by simp
next
  case (Cons b bs)
  let ?c = "b # node"
  let ?t1 = "without_subtree t ?c"
  have ok1: "below_ok D ?t1 node" using Cons.prems by (rule below_ok_without_subtree)
  have okc: "below_ok D t ?c" using Cons.prems by (rule below_ok_child)
  have step: "prune_children (Suc d) t (?c # map (\<lambda>b. b # node) bs)
                = prune_children (Suc d) ?t1 (map (\<lambda>b. b # node) bs)"
  proof (cases "edges t ?c = None")
    case True
    then show ?thesis using without_subtree_leaf [OF okc True] by simp
  next
    case False
    have "prune_at_node (Suc d) t ?c = Some (subtree_removed t ?c)"
      using IH [OF okc] D by simp
    then show ?thesis using False without_subtree_after_removed [of t ?c]
      by (auto simp del: prune_at_node.simps)
  qed
  have fin: "?t1\<lparr>nodes := nodes ?t1 - {u. \<exists>b\<in>set bs. suffix (b # node) u},
               edges := (\<lambda>k. if \<exists>b\<in>set bs. suffix (b # node) k then None else edges ?t1 k)\<rparr>
        = t\<lparr>nodes := nodes t - {u. \<exists>b'\<in>set (b # bs). suffix (b' # node) u},
               edges := (\<lambda>k. if \<exists>b'\<in>set (b # bs). suffix (b' # node) k then None else edges t k)\<rparr>"
  proof -
    have n: "nodes ?t1 - {u. \<exists>b\<in>set bs. suffix (b # node) u}
        = nodes t - {u. \<exists>b'\<in>set (b # bs). suffix (b' # node) u}"
      by (auto simp: without_subtree_def)
    have e: "(\<lambda>k. if \<exists>b\<in>set bs. suffix (b # node) k then None else edges ?t1 k)
        = (\<lambda>k. if \<exists>b'\<in>set (b # bs). suffix (b' # node) k then None else edges t k)"
      by (rule ext) (simp add: without_subtree_def)
    have u: "?t1\<lparr>nodes := N, edges := E\<rparr> = t\<lparr>nodes := N, edges := E\<rparr>" for N E
      by (simp add: without_subtree_def)
    show ?thesis unfolding u n e by (rule refl)
  qed
  show ?case using step Cons.IH [OF ok1] fin by simp
qed

lemma removed_eq:
  assumes ok: "below_ok D t node" and e: "edges t node \<noteq> None"
  shows "(t\<lparr>nodes := nodes t - {u. \<exists>b\<in>set (tree_s t). suffix (b # node) u},
            edges := (\<lambda>k. if \<exists>b\<in>set (tree_s t). suffix (b # node) k then None else edges t k)\<rparr>)
          \<lparr>edges := (\<lambda>k. if \<exists>b\<in>set (tree_s t). suffix (b # node) k then None else edges t k)
                     (node := None)\<rparr>
        = subtree_removed t node"
proof -
  have n: "nodes t - {u. \<exists>b\<in>set (tree_s t). suffix (b # node) u}
         = nodes t - {u. strict_suffix node u}"
  proof -
    have "(\<exists>b\<in>set (tree_s t). suffix (b # node) u) \<longleftrightarrow> strict_suffix node u"
      if "u \<in> nodes t" for u
      using strict_suffix_ex_Cons [of node u] suffix_Cons_strict [of _ node u]
        below_ok_symbol_node [OF ok that] by blast
    then show ?thesis by blast
  qed
  have ed: "((\<lambda>k. if \<exists>b\<in>set (tree_s t). suffix (b # node) k then None else edges t k)
                     (node := None))
         = (\<lambda>k. if suffix node k then None else edges t k)"
  proof
    fix k
    show "((\<lambda>k. if \<exists>b\<in>set (tree_s t). suffix (b # node) k then None else edges t k)
                     (node := None)) k = (if suffix node k then None else edges t k)"
    proof (cases "edges t k")
      case None
      then show ?thesis by simp
    next
      case (Some cs)
      then have k: "edges t k \<noteq> None" by simp
      have "(\<exists>b\<in>set (tree_s t). suffix (b # node) k) \<longleftrightarrow> strict_suffix node k"
        using strict_suffix_ex_Cons [of node k] suffix_Cons_strict [of _ node k]
          below_ok_symbol_key [OF ok k] by blast
      then show ?thesis by (auto simp: strict_suffix_def)
    qed
  qed
  show ?thesis unfolding subtree_removed_def n ed by (simp add: n ed)
qed

lemma prune_at_node_removes:
  "below_ok D t node \<Longrightarrow> D \<le> d + length node
    \<Longrightarrow> prune_at_node (Suc d) t node = Some (subtree_removed t node)"
proof (induction d arbitrary: t node)
  case 0
  then have "edges t node = None" unfolding below_ok_def by fastforce
  then show ?case using subtree_removed_leaf [OF "0.prems"(1)] by simp
next
  case (Suc d)
  show ?case
  proof (cases "edges t node")
    case None
    then show ?thesis using subtree_removed_leaf [OF Suc.prems(1)] by simp
  next
    case (Some cs)
    have cs: "cs = map (\<lambda>b. b # node) (tree_s t)"
      using Suc.prems(1) Some unfolding below_ok_def by blast
    have "prune_children (Suc d) t cs =
       Some (t\<lparr>nodes := nodes t - {u. \<exists>b\<in>set (tree_s t). suffix (b # node) u},
               edges := (\<lambda>k. if \<exists>b\<in>set (tree_s t). suffix (b # node) k then None else edges t k)\<rparr>)"
      unfolding cs
      by (rule prune_children_removes [OF Suc.IH Suc.prems(2) Suc.prems(1)])
    then show ?thesis
      using Some removed_eq [OF Suc.prems(1)] by (simp del: prune_children.simps)
  qed
qed

lemma suffix_tl_strict: "u \<noteq> [] \<Longrightarrow> suffix node (tl u) \<Longrightarrow> strict_suffix node u"
proof (cases u)
  case Nil
  assume "u \<noteq> []" then show ?thesis using Nil by simp
next
  case (Cons x u')
  assume "suffix node (tl u)"
  then have s: "suffix node u'" using Cons by simp
  then have "length node \<le> length u'" by (rule suffix_length_le)
  then have "node \<noteq> x # u'" by auto
  then show ?thesis using s Cons by (simp add: strict_suffix_def suffix_Cons)
qed

lemma tree_wf_below_ok:
  assumes "tree_wf t" "\<forall>u\<in>nodes t. length u \<le> D"
  shows "below_ok (Suc D) t node"
proof -
  have "\<And>k. edges t k \<noteq> None \<Longrightarrow> length k < Suc D"
  proof -
    fix k assume "edges t k \<noteq> None"
    then have "k \<in> nodes t" using assms(1) unfolding tree_wf_def by blast
    then show "length k < Suc D" using assms(2) by auto
  qed
  moreover have "\<And>k. edges t k \<noteq> None \<Longrightarrow> strict_suffix node k
        \<Longrightarrow> edges t (tl k) \<noteq> None \<and> hd k \<in> set (tree_s t)"
  proof -
    fix k assume k: "edges t k \<noteq> None" "strict_suffix node k"
    then have "k \<in> nodes t" "k \<noteq> []" using assms(1) unfolding tree_wf_def by auto
    then show "edges t (tl k) \<noteq> None \<and> hd k \<in> set (tree_s t)"
      using assms(1) unfolding tree_wf_def by blast
  qed
  moreover have "\<And>u. u \<in> nodes t \<Longrightarrow> strict_suffix node u
        \<Longrightarrow> edges t (tl u) \<noteq> None \<and> hd u \<in> set (tree_s t)"
  proof -
    fix u assume u: "u \<in> nodes t" "strict_suffix node u"
    then have "u \<noteq> []" by auto
    then show "edges t (tl u) \<noteq> None \<and> hd u \<in> set (tree_s t)"
      using assms(1) u(1) unfolding tree_wf_def by blast
  qed
  moreover have "\<And>k cs. edges t k = Some cs \<Longrightarrow> cs = map (\<lambda>b. b # k) (tree_s t)"
    using assms(1) unfolding tree_wf_def by blast
  ultimately show ?thesis unfolding below_ok_def by blast
qed

lemma tree_wf_subtree_removed:
  assumes "tree_wf t"
  shows "tree_wf (subtree_removed t node)"
proof -
  let ?t = "subtree_removed t node"
  have e: "\<And>k cs. edges t k = Some cs \<Longrightarrow> cs = map (\<lambda>b. b # k) (tree_s t)"
    and ch: "\<And>k b. edges t k \<noteq> None \<Longrightarrow> b \<in> set (tree_s t) \<Longrightarrow> b # k \<in> nodes t"
    and dm: "\<And>k. edges t k \<noteq> None \<Longrightarrow> k \<in> nodes t"
    and up: "\<And>u. u \<in> nodes t \<Longrightarrow> u \<noteq> [] \<Longrightarrow> edges t (tl u) \<noteq> None \<and> hd u \<in> set (tree_s t)"
    and r: "[] \<in> nodes t" and f: "finite (nodes t)"
    using assms unfolding tree_wf_def by blast+
  have ed: "edges ?t k = (if suffix node k then None else edges t k)" for k
    by (simp add: subtree_removed_def)
  have nd: "nodes ?t = nodes t - {u. strict_suffix node u}"
    by (simp add: subtree_removed_def)
  have ts: "tree_s ?t = tree_s t" by (simp add: subtree_removed_def)
  have 1: "[] \<in> nodes ?t" using r by (simp add: nd)
  have 2: "finite (nodes ?t)" using f by (simp add: nd)
  have 3: "\<forall>k cs. edges ?t k = Some cs \<longrightarrow> cs = map (\<lambda>b. b # k) (tree_s ?t)"
    using e by (auto simp: ed ts split: if_splits)
  have 4: "\<forall>k. edges ?t k \<noteq> None \<longrightarrow> k \<in> nodes ?t"
  proof (intro allI impI)
    fix k assume "edges ?t k \<noteq> None"
    then have "edges t k \<noteq> None" "\<not> suffix node k" by (auto simp: ed split: if_splits)
    then show "k \<in> nodes ?t" using dm by (simp add: nd strict_suffix_def)
  qed
  have 5: "\<forall>u\<in>nodes ?t. u \<noteq> [] \<longrightarrow> edges ?t (tl u) \<noteq> None \<and> hd u \<in> set (tree_s ?t)"
  proof (intro ballI impI)
    fix u assume u: "u \<in> nodes ?t" "u \<noteq> []"
    then have un: "u \<in> nodes t" and ns: "\<not> strict_suffix node u" by (simp_all add: nd)
    have "\<not> suffix node (tl u)"
      using ns suffix_tl_strict [OF u(2)] by blast
    then show "edges ?t (tl u) \<noteq> None \<and> hd u \<in> set (tree_s ?t)"
      using up [OF un u(2)] by (simp add: ed ts)
  qed
  have 6: "\<forall>k. edges ?t k \<noteq> None \<longrightarrow> (\<forall>b\<in>set (tree_s ?t). b # k \<in> nodes ?t)"
  proof (intro allI impI ballI)
    fix k b assume k: "edges ?t k \<noteq> None" "b \<in> set (tree_s ?t)"
    then have kk: "edges t k \<noteq> None" "\<not> suffix node k" by (auto simp: ed split: if_splits)
    have "\<not> strict_suffix node (b # k)"
      using kk(2) strict_suffix_tl [of node "b # k"] by auto
    then show "b # k \<in> nodes ?t" using ch [OF kk(1)] k(2) by (simp add: nd ts)
  qed
  show ?thesis unfolding tree_wf_def using 1 2 3 4 5 6 by blast
qed

lemma prune_at_node_wf:
  assumes "tree_wf t" "prune_at_node d t node = Some t'"
  shows "t' = subtree_removed t node"
proof -
  have f: "finite (nodes t)" using assms(1) unfolding tree_wf_def by blast
  define D where "D = Max (length ` nodes t)"
  have "\<forall>u\<in>nodes t. length u \<le> D" unfolding D_def using f by simp
  then have ok: "below_ok (Suc D) t node" using assms(1) tree_wf_below_ok by blast
  have "prune_at_node (Suc (d + Suc D)) t node = Some (subtree_removed t node)"
    by (rule prune_at_node_removes [OF ok]) simp
  moreover have "prune_at_node (Suc (d + Suc D)) t node = Some t'"
    by (rule prune_fuel_mono [OF assms(2)]) simp
  ultimately show ?thesis by simp
qed

lemma reachable_wf: "reachable s t \<Longrightarrow> tree_wf t"
proof (induction rule: reachable.induct)
  case fresh
  show ?case by (rule tree_wf_init)
next
  case (added t node t')
  then show ?case using tree_wf_add_node by blast
next
  case (pruned t d node t')
  then show ?case using prune_at_node_wf tree_wf_subtree_removed by blast
qed

text \<open>
  Claim C5. The structural invariant (every key of \<open>edges\<close> maps to exactly its \<open>m\<close> children
  \<open>b + key\<close>, all in \<open>nodes\<close>; a node of positive length has its parent and all its siblings
  in \<open>nodes\<close>; the root is in \<open>nodes\<close>) holds for a fresh tree and after every sequence of
  \<open>add_node\<close> calls made under the precondition and of \<open>prune_at_node\<close> calls.
\<close>

theorem tree_invariant_maintained: "reachable s t \<Longrightarrow> tree_inv t"
  using reachable_wf tree_wf_inv by blast

text \<open>
  Claim C6. \<open>prune_at_node\<close> leaves any tree unchanged when \<open>node\<close> has no entry in \<open>edges\<close>.
  Otherwise, on a well-formed tree whose nodes have length at most \<open>D\<close> and with a call stack
  deeper than the tree, it returns; it removes from \<open>nodes\<close> exactly the strict descendants
  of \<open>node\<close>, removes from \<open>edges\<close> exactly the entries of \<open>node\<close> and of its descendants,
  and \<open>node\<close> stays in \<open>nodes\<close> as a leaf. Nothing outside the subtree is added or removed.
\<close>

theorem prune_at_node_spec:
  "(edges t node = None \<longrightarrow> prune_at_node (Suc d) t node = Some t) \<and>
   (tree_wf t \<and> (\<forall>u\<in>nodes t. length u \<le> D) \<and> D < d + length node \<and> edges t node \<noteq> None \<longrightarrow>
      (\<exists>t'. prune_at_node (Suc d) t node = Some t' \<and>
         nodes t' = nodes t - {u. strict_suffix node u} \<and>
         edges t' = (\<lambda>k. if suffix node k then None else edges t k) \<and>
         tree_s t' = tree_s t \<and>
         node \<in> nodes t' \<and> edges t' node = None))"
proof (intro conjI impI)
  show "prune_at_node (Suc d) t node = Some t" if "edges t node = None"
    using that by simp
next
  assume a: "tree_wf t \<and> (\<forall>u\<in>nodes t. length u \<le> D) \<and> D < d + length node \<and> edges t node \<noteq> None"
  then have ok: "below_ok (Suc D) t node" using tree_wf_below_ok by blast
  have "Suc D \<le> d + length node" using a by simp
  then have p: "prune_at_node (Suc d) t node = Some (subtree_removed t node)"
    by (rule prune_at_node_removes [OF ok])
  have "node \<in> nodes t" using a unfolding tree_wf_def by blast
  then have "node \<in> nodes (subtree_removed t node)" by (simp add: subtree_removed_def)
  then show "\<exists>t'. prune_at_node (Suc d) t node = Some t' \<and>
         nodes t' = nodes t - {u. strict_suffix node u} \<and>
         edges t' = (\<lambda>k. if suffix node k then None else edges t k) \<and>
         tree_s t' = tree_s t \<and>
         node \<in> nodes t' \<and> edges t' node = None"
    using p by (simp add: subtree_removed_def)
qed

theorem tree_invariant_maintained_witness:
  "\<exists>t1 t2 t3. add_node (Tree_init ''ab'') ''a'' = Inr t1 \<and> add_node t1 ''ba'' = Inr t2
      \<and> prune_at_node 2 t2 ''a'' = Some t3
      \<and> reachable ''ab'' t3 \<and> tree_inv t3"
proof -
  define t1 where "t1 = (Tree_init ''ab'')\<lparr>nodes := nodes (Tree_init ''ab'') \<union> (\<lambda>b. b # drop 1 ''a'') ` set (tree_s (Tree_init ''ab'')),
            edges := (edges (Tree_init ''ab''))(drop 1 ''a'' \<mapsto> map (\<lambda>b. b # drop 1 ''a'') (tree_s (Tree_init ''ab'')))\<rparr>"
  define t2 where "t2 = t1\<lparr>nodes := nodes t1 \<union> (\<lambda>b. b # drop 1 ''ba'') ` set (tree_s t1),
            edges := (edges t1)(drop 1 ''ba'' \<mapsto> map (\<lambda>b. b # drop 1 ''ba'') (tree_s t1))\<rparr>"
  have a1: "add_node (Tree_init ''ab'') ''a'' = Inr t1"
    unfolding add_node_Inr t1_def by (simp add: Tree_init_def)
  have a2: "add_node t1 ''ba'' = Inr t2"
    unfolding add_node_Inr t2_def by (simp add: t1_def Tree_init_def)
  have e2: "edges t2 ''a'' = Some [''aa'', ''ba'']" "edges t2 ''aa'' = None" "edges t2 ''ba'' = None"
    by (simp_all add: t2_def t1_def Tree_init_def)
  obtain t3 where p: "prune_at_node 2 t2 ''a'' = Some t3"
    using e2 by (simp add: numeral_2_eq_2)
  have r: "reachable ''ab'' t3"
    using reachable.pruned [OF reachable.added [OF reachable.added [OF reachable.fresh a1] a2] p] .
  show ?thesis using a1 a2 p r tree_invariant_maintained [OF r] by blast
qed

theorem prune_at_node_spec_witness:
  "\<exists>t'. prune_at_node 4 \<lparr>tree_s = ''ab'', nodes = {[], ''a'', ''b'', ''aa'', ''ba''},
         edges = [[] \<mapsto> [''a'', ''b''], ''a'' \<mapsto> [''aa'', ''ba'']]\<rparr> [] = Some t'
       \<and> nodes t' = {[]} \<and> edges t' = Map.empty \<and> tree_s t' = ''ab''"
proof -
  let ?t = "\<lparr>tree_s = ''ab'', nodes = {[], ''a'', ''b'', ''aa'', ''ba''},
         edges = [[] \<mapsto> [''a'', ''b''], ''a'' \<mapsto> [''aa'', ''ba'']]\<rparr>"
  have wf: "tree_wf ?t" unfolding tree_wf_def by (auto split: if_splits)
  have b: "\<forall>u\<in>nodes ?t. length u \<le> 2" by simp
  have n: "nodes ?t - {u. strict_suffix [] u} = {[]}" by (auto simp: strict_suffix_def)
  have s4: "Suc 3 = 4" by simp
  show ?thesis
    using prune_at_node_spec [of ?t "[]" 3 2] wf b unfolding n s4 by auto
qed

section \<open>Properties of the estimated probability\<close>

lemma those_map_defined:
  "\<forall>x\<in>set xs. f x \<noteq> None \<Longrightarrow> those (map f xs) = Some (map (\<lambda>x. the (f x)) xs)"
  by (induction xs) auto

lemma foldl_add_sum_list:
  "foldl (\<lambda>acc n. acc + g n) (a::real) xs = a + sum_list (map g xs)"
  by (induction xs arbitrary: a) auto

lemma foldl_nested_sum_list:
  "foldl (\<lambda>acc c. foldl (\<lambda>acc' n. acc' + g n) acc (h c)) (a::real) cs
     = a + (\<Sum>c\<leftarrow>cs. sum_list (map g (h c)))"
  by (induction cs arbitrary: a) (auto simp: foldl_add_sum_list)

lemma sum_list_upto_int: "sum_list (map g [i..j]) = (\<Sum>n = i..j. g n)" for g :: "int \<Rightarrow> real"
  by (simp add: sum_set_upto_conv_sum_list_int [symmetric])

lemma map_eq_replicate_zero:
  "map f xs = replicate (length xs) c \<longleftrightarrow> (\<forall>x\<in>set xs. f x = c)"
  by (induction xs) auto

text \<open>
  Claim C4. Whenever every transition \<open>u + b\<close> of the alphabet has an entry in the counter,
  \<open>calc_log_pe\<close> raises nothing and returns exactly 0 if all the counts are 0, and otherwise
  the sum over the symbols \<open>b\<close> of \<open>\<Sum>n = 1..N(ub). ln (n - 0.5)\<close> minus
  \<open>\<Sum>n = 1..nu. ln (n + m / 2 - 1)\<close>, where \<open>nu\<close> is the sum of the counts and \<open>m\<close> the size of
  the alphabet. (Non-negative counts are the intended case; with the empty-sum convention
  the equation does not depend on it.)
\<close>

theorem calc_log_pe_formula:
  assumes "\<forall>b\<in>set s. counter (u @ [b]) \<noteq> None"
  shows "calc_log_pe s counter u =
     Inr (if (\<forall>b\<in>set s. counter (u @ [b]) = Some 0) then 0
          else (\<Sum>b\<leftarrow>s. \<Sum>n = 1..the (counter (u @ [b])). ln (real_of_int n - 0.5))
               - (\<Sum>n = 1..(\<Sum>b\<leftarrow>s. the (counter (u @ [b]))).
                    ln (real_of_int n + real (length s) / 2 - 1)))"
proof -
  have th: "those (map (\<lambda>b. counter (u @ [b])) s) = Some (map (\<lambda>b. the (counter (u @ [b]))) s)"
    using assms by (rule those_map_defined)
  have z: "(map (\<lambda>b. the (counter (u @ [b]))) s = replicate (length s) 0)
      \<longleftrightarrow> (\<forall>b\<in>set s. counter (u @ [b]) = Some 0)"
    using assms by (fastforce simp: map_eq_replicate_zero)
  show ?thesis
    unfolding calc_log_pe_def th
    by (simp add: z Let_def foldl_nested_sum_list foldl_add_sum_list sum_list_upto_int o_def)
qed

theorem calc_log_pe_formula_witness:
  "calc_log_pe ''ab'' [''a'' \<mapsto> 2, ''b'' \<mapsto> 1] [] =
     Inr ((ln (1 - 0.5) + ln (2 - 0.5) + ln (1 - 0.5))
           - (ln (1 + 2 / 2 - 1) + ln (2 + 2 / 2 - 1) + ln (3 + 2 / 2 - 1)))
   \<and> calc_log_pe ''ab'' [''a'' \<mapsto> 0, ''b'' \<mapsto> 0] [] = Inr 0"
proof -
  have s12: "{1..2::int} = {1, 2}" and s13: "{1..3::int} = {1, 2, 3}" by auto
  have a: "calc_log_pe ''ab'' [''a'' \<mapsto> 2, ''b'' \<mapsto> 1] [] =
     Inr ((ln (1 - 0.5) + ln (2 - 0.5) + ln (1 - 0.5))
           - (ln (1 + 2 / 2 - 1) + ln (2 + 2 / 2 - 1) + ln (3 + 2 / 2 - 1)))"
    using calc_log_pe_formula [of "''ab''" "[''a'' \<mapsto> 2, ''b'' \<mapsto> 1]" "[]"]
    by (simp add: s12 s13)
  have b: "calc_log_pe ''ab'' [''a'' \<mapsto> 0, ''b'' \<mapsto> 0] [] = Inr 0"
    using calc_log_pe_formula [of "''ab''" "[''a'' \<mapsto> 0, ''b'' \<mapsto> 0]" "[]"]
    by simp
  show ?thesis using a b by simp
qed

section \<open>The pruning decision\<close>

lemma for_each_sum_acc:
  "\<forall>c\<in>set cs. pm c \<noteq> None \<Longrightarrow>
   for_each (\<lambda>acc child. case pm child of None \<Rightarrow> Inl KeyError | Some v \<Rightarrow> Inr (acc + v)) cs (a::real)
     = Inr (a + (\<Sum>c\<leftarrow>cs. the (pm c)))"
  by (induction cs arbitrary: a) (auto simp: algebra_simps)

lemma for_each_sum_missing:
  "\<exists>c\<in>set cs. pm c = None \<Longrightarrow>
   for_each (\<lambda>acc child. case pm child of None \<Rightarrow> Inl KeyError | Some v \<Rightarrow> Inr (acc + v)) cs (a::real)
     = Inl KeyError"
  by (induction cs arbitrary: a) (auto split: option.splits)

lemma sum_child_log_pm_eq:
  "sum_child_log_pm pm cs =
     (if \<forall>c\<in>set cs. pm c \<noteq> None then Inr (\<Sum>c\<leftarrow>cs. the (pm c)) else Inl KeyError)"
  unfolding sum_child_log_pm_def
  using for_each_sum_acc [of cs pm 0] for_each_sum_missing [of cs pm 0] by auto

lemma for_each_fp_acc:
  "\<forall>c\<in>set cs. pm c \<noteq> None \<Longrightarrow>
   for_each (\<lambda>acc child. case pm child of None \<Rightarrow> Inl KeyError | Some v \<Rightarrow> Inr (add acc v)) cs a
     = Inr (foldl add a (map (\<lambda>c. the (pm c)) cs))"
  by (induction cs arbitrary: a) auto

lemma sum_child_log_pm_fp_defined:
  "\<forall>c\<in>set cs. pm c \<noteq> None \<Longrightarrow>
   sum_child_log_pm_fp ops pm cs = Inr (foldl (f_add ops) (f_zero ops) (map (\<lambda>c. the (pm c)) cs))"
  unfolding sum_child_log_pm_fp_def by (rule for_each_fp_acc)

lemma real_ops_sel:
  "f_zero real_ops = 0" "f_one real_ops = 1" "f_add real_ops = (+)" "f_sub real_ops = (-)"
  "f_log real_ops = ln" "f_gt real_ops = (\<lambda>x y. x > y)"
  by (simp_all add: real_ops_def)

lemma sum_child_log_pm_real:
  "sum_child_log_pm_fp real_ops pm cs = sum_child_log_pm pm cs"
  unfolding sum_child_log_pm_fp_def sum_child_log_pm_def real_ops_sel ..

lemma bct_visit_real:
  "bct_visit_fp real_ops depth beta pe pm tau u rest = bct_visit depth beta pe pm tau u rest"
  unfolding bct_visit_fp_def bct_visit_def sum_child_log_pm_real real_ops_sel ..

lemma prune_at_node_wf_result:
  assumes "tree_wf tau" "\<forall>x\<in>nodes tau. length x \<le> dm" "dm + 2 \<le> depth"
  shows "prune_at_node depth tau u =
           Some (tau\<lparr>nodes := nodes tau - {x. strict_suffix u x},
                     edges := (\<lambda>k. if suffix u k then None else edges tau k)\<rparr>)"
proof -
  have ok: "below_ok (Suc dm) tau u" by (rule tree_wf_below_ok [OF assms(1,2)])
  obtain d where d: "depth = Suc d" "Suc dm \<le> d + length u"
    using assms(3) by (cases depth) auto
  show ?thesis
    unfolding d(1) using prune_at_node_removes [OF ok d(2)] by (simp add: subtree_removed_def)
qed

text \<open>
  Claim C2. One turn of the pruning loop on a dequeued node \<open>u\<close> that is not a leaf, in a
  well-formed tree (as \<open>bct\<close> holds at every turn) and with a recursion limit above the tree
  depth. Let \<open>stop\<close> be the float \<^verbatim>\<open>np.log(beta) + log_pe_dict[u]\<close> and \<open>split\<close> the float
  \<^verbatim>\<open>np.log(1-beta) + sum_child_log_pm\<close>, the sum being accumulated from \<^verbatim>\<open>0.0\<close> over the
  children in order. If \<open>stop > split\<close> the subtree at \<open>u\<close> is pruned: every strict descendant
  of \<open>u\<close> leaves \<open>nodes\<close>, the entries of \<open>u\<close> and of its descendants leave \<open>edges\<close>, \<open>u\<close>
  stays as a leaf, and nothing is enqueued. Otherwise the tree is unchanged and the
  children of \<open>u\<close> are appended to the queue; so it is on an exact tie, since no float is
  greater than itself. The loop continues from that state. This holds for every float
  arithmetic.
\<close>

theorem prune_decision:
  assumes "edges tau u = Some children"
    and "\<forall>c\<in>set children. log_pm_dict c \<noteq> None"
    and "log_pe_dict u = Some pe"
    and "tree_wf tau" and "\<forall>x\<in>nodes tau. length x \<le> dm" and "dm + 2 \<le> depth"
    and "stop = f_add ops (f_log ops beta) pe"
    and "split = f_add ops (f_log ops (f_sub ops (f_one ops) beta))
                   (foldl (f_add ops) (f_zero ops) (map (\<lambda>c. the (log_pm_dict c)) children))"
    and "pruned = tau\<lparr>nodes := nodes tau - {x. strict_suffix u x},
                       edges := (\<lambda>k. if suffix u k then None else edges tau k)\<rparr>"
  shows "bct_visit_fp ops depth beta log_pe_dict log_pm_dict tau u rest =
           (if f_gt ops stop split then Inr (rest, pruned) else Inr (rest @ children, tau))
       \<and> bct_queue_fp ops depth beta log_pe_dict log_pm_dict (u # rest) tau =
           (if f_gt ops stop split
            then bct_queue_fp ops depth beta log_pe_dict log_pm_dict rest pruned
            else bct_queue_fp ops depth beta log_pe_dict log_pm_dict (rest @ children) tau)
       \<and> u \<in> nodes pruned \<and> edges pruned u = None \<and> pruned \<noteq> tau
       \<and> ((\<forall>x. \<not> f_gt ops x x) \<and> stop = split \<longrightarrow>
            bct_visit_fp ops depth beta log_pe_dict log_pm_dict tau u rest
              = Inr (rest @ children, tau))"
proof -
  have pr: "prune_at_node depth tau u = Some pruned"
    unfolding assms(9) by (rule prune_at_node_wf_result [OF assms(4,5,6)])
  have sm: "sum_child_log_pm_fp ops log_pm_dict children =
      Inr (foldl (f_add ops) (f_zero ops) (map (\<lambda>c. the (log_pm_dict c)) children))"
    by (rule sum_child_log_pm_fp_defined [OF assms(2)])
  have v: "bct_visit_fp ops depth beta log_pe_dict log_pm_dict tau u rest =
           (if f_gt ops stop split then Inr (rest, pruned) else Inr (rest @ children, tau))"
    using assms(1,3) sm pr by (simp add: bct_visit_fp_def assms(7,8))
  have q: "bct_queue_fp ops depth beta log_pe_dict log_pm_dict (u # rest) tau =
           (if f_gt ops stop split
            then bct_queue_fp ops depth beta log_pe_dict log_pm_dict rest pruned
            else bct_queue_fp ops depth beta log_pe_dict log_pm_dict (rest @ children) tau)"
    by (subst bct_queue_fp.simps) (simp add: v)
  have "u \<in> nodes tau" using assms(1,4) unfolding tree_wf_def by blast
  then have n: "u \<in> nodes pruned" by (simp add: assms(9))
  have e: "edges pruned u = None" by (simp add: assms(9))
  have ne: "pruned \<noteq> tau" using e assms(1) by auto
  have tie: "bct_visit_fp ops depth beta log_pe_dict log_pm_dict tau u rest
              = Inr (rest @ children, tau)" if "(\<forall>x. \<not> f_gt ops x x) \<and> stop = split"
    unfolding v using that by simp
  show ?thesis using v q n e ne tie by blast
qed

theorem prune_decision_witness:
  "bct_visit_fp real_ops 5 (1/2) [[] \<mapsto> 0] [''a'' \<mapsto> 0]
       \<lparr>tree_s = ''a'', nodes = {[], ''a''}, edges = [[] \<mapsto> [''a'']]\<rparr> [] []
     = Inr ([''a''], \<lparr>tree_s = ''a'', nodes = {[], ''a''}, edges = [[] \<mapsto> [''a'']]\<rparr>)
   \<and> bct_visit_fp real_ops 5 (3/4) [[] \<mapsto> 0] [''a'' \<mapsto> 0]
       \<lparr>tree_s = ''a'', nodes = {[], ''a''}, edges = [[] \<mapsto> [''a'']]\<rparr> [] []
     = Inr ([], \<lparr>tree_s = ''a'', nodes = {[]}, edges = Map.empty\<rparr>)"
proof -
  let ?t = "\<lparr>tree_s = ''a'', nodes = {[], ''a''}, edges = [[] \<mapsto> [''a'']]\<rparr>"
  let ?pm = "[''a'' \<mapsto> 0 :: real]"
  let ?pe = "[[] \<mapsto> 0 :: real]"
  have e: "edges ?t [] = Some [''a'']" by simp
  have ch: "\<forall>c\<in>set [''a'']. ?pm c \<noteq> None" by simp
  have pe: "?pe [] = Some 0" by simp
  have wf: "tree_wf ?t" unfolding tree_wf_def by (auto split: if_splits)
  have len: "\<forall>x\<in>nodes ?t. length x \<le> 1" by simp
  have depth: "1 + 2 \<le> (5::nat)" by simp
  have n: "nodes ?t - {x. strict_suffix [] x} = {[]}" by (auto simp: strict_suffix_def)
  have ed: "(\<lambda>k. if suffix [] k then None else edges ?t k) = Map.empty" by auto
  have gt: "ln (3/4 :: real) > ln (1 - 3/4)" by (subst ln_less_cancel_iff) simp_all
  have tie: "bct_visit_fp real_ops 5 (1/2) ?pe ?pm ?t [] [] = Inr ([''a''], ?t)"
    using prune_decision [where ops = real_ops and tau = "?t" and u = "[]" and children = "[''a'']"
        and log_pm_dict = ?pm and log_pe_dict = ?pe and pe = 0 and dm = 1 and depth = 5
        and rest = "[]" and beta = "1/2", OF e ch pe wf len depth refl refl refl]
    by (simp add: real_ops_sel)
  have strict: "bct_visit_fp real_ops 5 (3/4) ?pe ?pm ?t [] []
      = Inr ([], \<lparr>tree_s = ''a'', nodes = {[]}, edges = Map.empty\<rparr>)"
    using prune_decision [where ops = real_ops and tau = "?t" and u = "[]" and children = "[''a'']"
        and log_pm_dict = ?pm and log_pe_dict = ?pe and pe = 0 and dm = 1 and depth = 5
        and rest = "[]" and beta = "3/4", OF e ch pe wf len depth refl refl refl] gt
    unfolding n ed by (simp add: real_ops_sel)
  show ?thesis using tie strict by simp
qed

section \<open>The maximal-probability pass\<close>

lemma log_pm_node_value:
  "log_pm_node dmax beta tree pe sz pm node =
     (case log_pm_value dmax beta tree pe sz pm node of
        Inl err \<Rightarrow> Inl err
      | Inr v \<Rightarrow> Inr (pm(node \<mapsto> v)))"
  by (auto simp: log_pm_node_def log_pm_value_def sum_child_log_pm_eq split: option.splits)

lemma log_pm_value_error: "log_pm_value dmax beta tree pe sz pm node = Inl e \<Longrightarrow> e = KeyError"
  by (auto simp: log_pm_value_def split: option.splits if_splits)

lemma log_pm_value_cong:
  assumes "\<And>cs c. edges tree node = Some cs \<Longrightarrow> c \<in> set cs \<Longrightarrow> pm c = pm' c"
  shows "log_pm_value dmax beta tree pe sz pm node = log_pm_value dmax beta tree pe sz pm' node"
proof (cases "edges tree node")
  case None
  then show ?thesis by (simp add: log_pm_value_def)
next
  case (Some cs)
  then have "\<forall>c\<in>set cs. pm c = pm' c" using assms by blast
  then have A: "(\<forall>c\<in>set cs. pm c \<noteq> None) = (\<forall>c\<in>set cs. pm' c \<noteq> None)"
    and B: "map (\<lambda>c. the (pm c)) cs = map (\<lambda>c. the (pm' c)) cs" by auto
  show ?thesis unfolding log_pm_value_def Some option.case A B ..
qed

lemma for_each_level:
  assumes "\<And>node cs. node \<in> set ns \<Longrightarrow> edges tree node = Some cs \<Longrightarrow> set cs \<inter> set ns = {}"
  shows "for_each (log_pm_node dmax beta tree pe sz) ns pm
           = level_result (log_pm_value dmax beta tree pe sz) (set ns) pm"
  using assms
proof (induction ns arbitrary: pm)
  case Nil
  then show ?case by (simp add: level_result_def)
next
  case (Cons x ns)
  let ?V = "log_pm_value dmax beta tree pe sz"
  show ?case
  proof (cases "?V pm x")
    case (Inl e)
    then have "e = KeyError" by (rule log_pm_value_error)
    then show ?thesis using Inl by (auto simp: log_pm_node_value level_result_def)
  next
    case (Inr v)
    let ?pm1 = "pm(x \<mapsto> v)"
    have same: "?V ?pm1 u = ?V pm u" if "u \<in> set (x # ns)" for u
    proof (rule log_pm_value_cong)
      fix cs c assume "edges tree u = Some cs" "c \<in> set cs"
      then have "c \<noteq> x" using Cons.prems [OF that] by auto
      then show "?pm1 c = pm c" by simp
    qed
    have ih: "for_each (log_pm_node dmax beta tree pe sz) ns ?pm1 = level_result ?V (set ns) ?pm1"
      by (rule Cons.IH) (use Cons.prems in auto)
    have "level_result ?V (set ns) ?pm1 = level_result ?V (set (x # ns)) pm"
    proof -
      have a: "(\<exists>u\<in>set ns. isl (?V ?pm1 u)) = (\<exists>u\<in>set (x # ns). isl (?V pm u))"
        using same Inr by auto
      have b: "(\<lambda>u. if u \<in> set ns then Some (projr (?V ?pm1 u)) else ?pm1 u)
             = (\<lambda>u. if u \<in> set (x # ns) then Some (projr (?V pm u)) else pm u)"
        using same Inr by (auto simp: fun_eq_iff)
      show ?thesis unfolding level_result_def a b ..
    qed
    moreover have "log_pm_node dmax beta tree pe sz pm x = Inr ?pm1"
      using Inr by (simp add: log_pm_node_value)
    ultimately show ?thesis using ih by simp
  qed
qed

lemma log_pm_level_eq:
  assumes "set_iteration iter" "finite (nodes tree)"
    and "\<And>u cs c. u \<in> nodes tree \<Longrightarrow> edges tree u = Some cs \<Longrightarrow> c \<in> set cs
           \<Longrightarrow> length c \<noteq> length u"
  shows "log_pm_level iter dmax beta tree pe pm sz
           = level_result (log_pm_value dmax beta tree pe sz)
               {u \<in> nodes tree. int (length u) = sz} pm"
proof -
  let ?ns = "filter (\<lambda>node. int (length node) = sz) (iter (nodes tree))"
  have s: "set (iter (nodes tree)) = nodes tree"
    using assms(1,2) unfolding set_iteration_def by blast
  then have sn: "set ?ns = {u \<in> nodes tree. int (length u) = sz}" by auto
  have "for_each (log_pm_node dmax beta tree pe sz) ?ns pm
           = level_result (log_pm_value dmax beta tree pe sz) (set ?ns) pm"
  proof (rule for_each_level)
    fix node cs assume "node \<in> set ?ns" "edges tree node = Some cs"
    then show "set cs \<inter> set ?ns = {}" using assms(3) [of node cs] unfolding sn by fastforce
  qed
  then show ?thesis unfolding log_pm_level_def Let_def sn .
qed

lemma for_each_append:
  "for_each body (xs @ ys) st =
     (case for_each body xs st of Inl err \<Rightarrow> Inl err | Inr st' \<Rightarrow> for_each body ys st')"
  by (induction xs arbitrary: st) (auto split: sum.splits)

lemma upto_int_nat: "[0..int n] = map int [0..<Suc n]"
proof (induction n)
  case 0
  show ?case by (simp add: upto_rec1)
next
  case (Suc n)
  have "[0..int (Suc n)] = [0..int n] @ [int (Suc n)]"
    using upto_rec2 [of 0 "int (Suc n)"] by simp
  then show ?case using Suc by simp
qed

lemma tree_wf_children:
  assumes "tree_wf t" "edges t u = Some cs" "c \<in> set cs"
  shows "c \<in> nodes t \<and> length c = Suc (length u)"
proof -
  have "cs = map (\<lambda>b. b # u) (tree_s t)" using assms(1,2) unfolding tree_wf_def by blast
  then obtain b where b: "b \<in> set (tree_s t)" "c = b # u" using assms(3) by auto
  have "edges t u \<noteq> None" using assms(2) by simp
  then have "b # u \<in> nodes t" using assms(1) b(1) unfolding tree_wf_def by blast
  then show ?thesis using b(2) by simp
qed

lemma log_pm_levels:
  assumes si: "set_iteration iter" and wf: "tree_wf tree"
    and pe: "\<forall>u\<in>nodes tree. pe u \<noteq> None"
  shows "n \<le> Suc dm \<Longrightarrow>
    \<exists>pm. for_each (log_pm_level iter (int dm) beta tree pe)
              (map int (rev [Suc dm - n..<Suc dm])) Map.empty = Inr pm
       \<and> dom pm = {u \<in> nodes tree. Suc dm - n \<le> length u \<and> length u \<le> dm}
       \<and> (\<forall>u\<in>dom pm. log_pm_value (int dm) beta tree pe (int (length u)) pm u
                          = Inr (the (pm u)))
       \<and> (\<forall>m\<le>n. \<exists>earlier.
             for_each (log_pm_level iter (int dm) beta tree pe)
               (map int (rev [Suc dm - m..<Suc dm])) Map.empty = Inr earlier
           \<and> dom earlier = {u \<in> nodes tree. Suc dm - m \<le> length u \<and> length u \<le> dm}
           \<and> (\<forall>u\<in>dom earlier. earlier u = pm u))"
proof (induction n)
  case 0
  show ?case by simp
next
  case (Suc n)
  let ?run = "\<lambda>m. for_each (log_pm_level iter (int dm) beta tree pe)
               (map int (rev [Suc dm - m..<Suc dm])) Map.empty"
  let ?D = "\<lambda>m. {u \<in> nodes tree. Suc dm - m \<le> length u \<and> length u \<le> dm}"
  let ?V = "\<lambda>u. log_pm_value (int dm) beta tree pe (int (length u))"
  from Suc.prems have n: "n \<le> dm" by simp
  then have "n \<le> Suc dm" by simp
  from Suc.IH [OF this] obtain pm where run: "?run n = Inr pm" and dm: "dom pm = ?D n"
    and sat: "\<forall>u\<in>dom pm. ?V u pm u = Inr (the (pm u))"
    and ear: "\<forall>m\<le>n. \<exists>earlier. ?run m = Inr earlier \<and> dom earlier = ?D m
                 \<and> (\<forall>u\<in>dom earlier. earlier u = pm u)"
    by blast
  define k where "k = dm - n"
  have k: "Suc dm - Suc n = k" "Suc dm - n = Suc k" "k \<le> dm" using n by (auto simp: k_def)
  define L where "L = {u \<in> nodes tree. int (length u) = int k}"
  have Lk: "\<And>u. u \<in> L \<longleftrightarrow> u \<in> nodes tree \<and> length u = k" by (simp add: L_def)
  have fin: "finite (nodes tree)" using wf unfolding tree_wf_def by blast
  have lvl: "log_pm_level iter (int dm) beta tree pe pm (int k)
           = level_result (log_pm_value (int dm) beta tree pe (int k)) L pm"
    unfolding L_def
  proof (rule log_pm_level_eq [OF si fin])
    fix u cs c assume "u \<in> nodes tree" "edges tree u = Some cs" "c \<in> set cs"
    then show "length c \<noteq> length u" using tree_wf_children [OF wf] by fastforce
  qed
  have list: "map int (rev [Suc dm - Suc n..<Suc dm])
                = map int (rev [Suc dm - n..<Suc dm]) @ [int k]"
    using k upt_conv_Cons [of k "Suc dm"] by simp
  have ok: "\<exists>v. log_pm_value (int dm) beta tree pe (int k) pm u = Inr v" if "u \<in> L" for u
  proof -
    from that have un: "u \<in> nodes tree" and lu: "length u = k" by (simp_all add: Lk)
    obtain p where p: "pe u = Some p" using pe un by auto
    show ?thesis
    proof (cases "edges tree u")
      case None
      then show ?thesis using p by (simp add: log_pm_value_def)
    next
      case (Some cs)
      show ?thesis
      proof (cases "k = dm")
        case True
        then show ?thesis using p by (simp add: log_pm_value_def)
      next
        case False
        have "pm c \<noteq> None" if "c \<in> set cs" for c
        proof -
          have "c \<in> nodes tree" "length c = Suc k"
            using tree_wf_children [OF wf Some that] lu by simp_all
          then have "c \<in> dom pm" using False k by (simp add: dm)
          then show ?thesis by blast
        qed
        then show ?thesis using p Some by (simp add: log_pm_value_def)
      qed
    qed
  qed
  define pm' where "pm' = (\<lambda>u. if u \<in> L then
       Some (projr (log_pm_value (int dm) beta tree pe (int k) pm u)) else pm u)"
  have res: "level_result (log_pm_value (int dm) beta tree pe (int k)) L pm = Inr pm'"
    using ok unfolding level_result_def pm'_def by fastforce
  have run': "?run (Suc n) = Inr pm'"
    unfolding list for_each_append using run lvl res by simp
  have old: "pm' u = pm u" if "u \<in> dom pm" for u
  proof -
    have "u \<notin> L" using that k by (auto simp: dm Lk)
    then show ?thesis by (simp add: pm'_def)
  qed
  have dm': "dom pm' = ?D (Suc n)"
  proof -
    have "dom pm' = L \<union> dom pm" by (auto simp: pm'_def split: if_splits)
    also have "\<dots> = ?D (Suc n)" using k by (auto simp: dm Lk)
    finally show ?thesis .
  qed
  have sat': "?V u pm' u = Inr (the (pm' u))" if "u \<in> dom pm'" for u
  proof -
    have un: "u \<in> nodes tree" and lo: "k \<le> length u" using that k unfolding dm' by auto
    have same: "?V u pm' u = ?V u pm u"
    proof (rule log_pm_value_cong)
      fix cs c assume "edges tree u = Some cs" "c \<in> set cs"
      then have "length c = Suc (length u)" using tree_wf_children [OF wf] by blast
      then have "c \<notin> L" using lo by (simp add: Lk)
      then show "pm' c = pm c" by (simp add: pm'_def)
    qed
    show ?thesis
    proof (cases "u \<in> L")
      case True
      then have "length u = k" by (simp add: Lk)
      then show ?thesis using ok [OF True] True unfolding same by (auto simp: pm'_def)
    next
      case False
      then have "u \<in> dom pm" using that by (auto simp: pm'_def split: if_splits)
      then show ?thesis using sat old unfolding same by simp
    qed
  qed
  have ear': "\<exists>earlier. ?run m = Inr earlier \<and> dom earlier = ?D m
                 \<and> (\<forall>u\<in>dom earlier. earlier u = pm' u)" if "m \<le> Suc n" for m
  proof (cases "m = Suc n")
    case True
    then show ?thesis using run' dm' by blast
  next
    case False
    then have "m \<le> n" using that by simp
    then obtain e where e: "?run m = Inr e" "dom e = ?D m" "\<forall>u\<in>dom e. e u = pm u"
      using ear by blast
    have "dom e \<subseteq> dom pm" using \<open>m \<le> n\<close> unfolding e(2) dm by auto
    then have "\<forall>u\<in>dom e. e u = pm' u" using e(3) old by (metis subsetD)
    then show ?thesis using e by blast
  qed
  show ?case using run' dm' sat' ear' by blast
qed

lemma set_iteration_sorted: "set_iteration sorted_list_of_set"
  by (simp add: set_iteration_def)

text \<open>
  Claim C1. On a well-formed tree whose nodes all have a \<open>log_pe\<close> value,
  \<open>construct_log_pm_dict\<close> returns a dictionary in which, for every node \<open>u\<close>:
  \<open>log_pm u = log_pe u\<close> if the length of \<open>u\<close> is \<open>dmax\<close>; \<open>log_pm u = ln beta\<close> if \<open>u\<close> is shorter
  and is not a key of \<open>edges\<close>; and otherwise \<open>log_pm u\<close> is the maximum of
  \<open>ln beta + log_pe u\<close> and \<open>ln (1 - beta)\<close> plus the sum of \<open>log_pm\<close> over the children.
  Levels are processed by strictly decreasing depth: when the level \<open>k\<close> starts, the
  dictionary holds exactly the nodes deeper than \<open>k\<close>, with their final values, so every
  child is computed before its parent.
\<close>

theorem construct_log_pm_dict_spec:
  assumes "set_iteration iter" and "tree_wf tree"
    and "\<forall>u\<in>nodes tree. log_pe_dict u \<noteq> None"
  shows "\<exists>log_pm_dict.
      construct_log_pm_dict iter s (int dm) beta tree log_pe_dict = Inr log_pm_dict
    \<and> (\<forall>u\<in>nodes tree.
         (length u = dm \<longrightarrow> log_pm_dict u = log_pe_dict u) \<and>
         (length u < dm \<longrightarrow> edges tree u = None \<longrightarrow> log_pm_dict u = Some (ln beta)) \<and>
         (length u < dm \<longrightarrow>
            (\<forall>children. edges tree u = Some children \<longrightarrow>
               (\<forall>c\<in>set children. log_pm_dict c \<noteq> None) \<and>
               log_pm_dict u =
                 Some (max (ln beta + the (log_pe_dict u))
                           (ln (1 - beta) + (\<Sum>c\<leftarrow>children. the (log_pm_dict c)))))))
    \<and> (\<forall>k\<le>dm. \<exists>earlier.
          for_each (log_pm_level iter (int dm) beta tree log_pe_dict)
            (map int (rev [Suc k..<Suc dm])) Map.empty = Inr earlier
        \<and> dom earlier = {u \<in> nodes tree. k < length u \<and> length u \<le> dm}
        \<and> (\<forall>u\<in>dom earlier. earlier u = log_pm_dict u))"
proof -
  let ?run = "\<lambda>m. for_each (log_pm_level iter (int dm) beta tree log_pe_dict)
               (map int (rev [Suc dm - m..<Suc dm])) Map.empty"
  from log_pm_levels [OF assms, of "Suc dm" dm beta]
  obtain pm where run: "?run (Suc dm) = Inr pm"
    and dm: "dom pm = {u \<in> nodes tree. Suc dm - Suc dm \<le> length u \<and> length u \<le> dm}"
    and sat: "\<forall>u\<in>dom pm. log_pm_value (int dm) beta tree log_pe_dict (int (length u)) pm u
                          = Inr (the (pm u))"
    and ear: "\<forall>m\<le>Suc dm. \<exists>earlier. ?run m = Inr earlier
           \<and> dom earlier = {u \<in> nodes tree. Suc dm - m \<le> length u \<and> length u \<le> dm}
           \<and> (\<forall>u\<in>dom earlier. earlier u = pm u)"
    by blast
  have c: "construct_log_pm_dict iter s (int dm) beta tree log_pe_dict = Inr pm"
    using run by (simp add: construct_log_pm_dict_def upto_int_nat rev_map)
  have eqs: "(length u = dm \<longrightarrow> pm u = log_pe_dict u) \<and>
         (length u < dm \<longrightarrow> edges tree u = None \<longrightarrow> pm u = Some (ln beta)) \<and>
         (length u < dm \<longrightarrow>
            (\<forall>children. edges tree u = Some children \<longrightarrow>
               (\<forall>c\<in>set children. pm c \<noteq> None) \<and>
               pm u = Some (max (ln beta + the (log_pe_dict u))
                           (ln (1 - beta) + (\<Sum>c\<leftarrow>children. the (pm c))))))"
    if un: "u \<in> nodes tree" for u
  proof (cases "length u \<le> dm")
    case False
    then show ?thesis by simp
  next
    case True
    then have ud: "u \<in> dom pm" using un by (simp add: dm)
    then obtain v where v: "pm u = Some v" by blast
    have "log_pm_value (int dm) beta tree log_pe_dict (int (length u)) pm u = Inr (the (pm u))"
      using sat ud by blast
    then have V: "log_pm_value (int dm) beta tree log_pe_dict (int (length u)) pm u = Inr v"
      by (simp add: v)
    obtain p where p: "log_pe_dict u = Some p" using assms(3) un by auto
    show ?thesis
    proof (intro conjI impI allI)
      assume "length u = dm"
      then show "pm u = log_pe_dict u" using V v p by (simp add: log_pm_value_def)
    next
      assume "length u < dm" "edges tree u = None"
      then show "pm u = Some (ln beta)" using V v by (simp add: log_pm_value_def)
    next
      fix children assume a: "length u < dm" "edges tree u = Some children"
      have ne: "int (length u) \<noteq> int dm" using a(1) by simp
      have Vd: "log_pm_value (int dm) beta tree log_pe_dict (int (length u)) pm u =
            (if \<forall>c\<in>set children. pm c \<noteq> None
               then Inr (max (ln beta + p) (ln (1 - beta) + (\<Sum>c\<leftarrow>children. the (pm c))))
               else Inl KeyError)"
        unfolding log_pm_value_def if_not_P [OF ne] a(2) p option.case ..
      show all: "\<forall>c\<in>set children. pm c \<noteq> None"
      proof (rule ccontr)
        assume "\<not> (\<forall>c\<in>set children. pm c \<noteq> None)"
        then have "log_pm_value (int dm) beta tree log_pe_dict (int (length u)) pm u = Inl KeyError"
          unfolding Vd by (rule if_not_P)
        then show False using V by simp
      qed
      have "log_pm_value (int dm) beta tree log_pe_dict (int (length u)) pm u =
              Inr (max (ln beta + p) (ln (1 - beta) + (\<Sum>c\<leftarrow>children. the (pm c))))"
        unfolding Vd using all by (rule if_P)
      then show "pm u = Some (max (ln beta + the (log_pe_dict u))
                           (ln (1 - beta) + (\<Sum>c\<leftarrow>children. the (pm c))))"
        using V v p by simp
    qed
  qed
  have order: "\<exists>earlier.
          for_each (log_pm_level iter (int dm) beta tree log_pe_dict)
            (map int (rev [Suc k..<Suc dm])) Map.empty = Inr earlier
        \<and> dom earlier = {u \<in> nodes tree. k < length u \<and> length u \<le> dm}
        \<and> (\<forall>u\<in>dom earlier. earlier u = pm u)" if "k \<le> dm" for k
  proof -
    have "dm - k \<le> Suc dm" by simp
    then obtain e where e: "?run (dm - k) = Inr e"
        "dom e = {u \<in> nodes tree. Suc dm - (dm - k) \<le> length u \<and> length u \<le> dm}"
        "\<forall>u\<in>dom e. e u = pm u"
      using ear by blast
    have idx: "Suc dm - (dm - k) = Suc k" using that by simp
    have d: "dom e = {u \<in> nodes tree. k < length u \<and> length u \<le> dm}"
      unfolding e(2) idx by (simp add: Suc_le_eq)
    show ?thesis
      using e(1) d e(3) unfolding idx by (intro exI [of _ e] conjI)
  qed
  show ?thesis
    apply (rule exI [of _ pm])
    apply (intro conjI)
      apply (rule c)
     apply (rule ballI)
     apply (erule eqs)
    apply (intro allI impI)
    apply (erule order)
    done
qed

theorem construct_log_pm_dict_spec_witness:
  "\<exists>pm. construct_log_pm_dict sorted_list_of_set ''a'' (int 1) (1/2)
            \<lparr>tree_s = ''a'', nodes = {[], ''a''}, edges = [[] \<mapsto> [''a'']]\<rparr>
            [[] \<mapsto> - 1, ''a'' \<mapsto> - 2] = Inr pm
       \<and> pm ''a'' = Some (- 2)
       \<and> pm [] = Some (max (ln (1/2) + - 1) (ln (1 - 1/2) + (0 + - 2)))"
proof -
  let ?t = "\<lparr>tree_s = ''a'', nodes = {[], ''a''}, edges = [[] \<mapsto> [''a'']]\<rparr>"
  let ?pe = "[[] \<mapsto> - 1, ''a'' \<mapsto> - 2 :: real]"
  have wf: "tree_wf ?t" unfolding tree_wf_def by (auto split: if_splits)
  have pe: "\<forall>u\<in>nodes ?t. ?pe u \<noteq> None" by simp
  note th = construct_log_pm_dict_spec [OF set_iteration_sorted wf pe, of "''a''" 1 "1/2"]
  from th show ?thesis
  proof (elim exE conjE, goal_cases)
    case (1 pm)
    have a: "pm ''a'' = Some (- 2)" using 1(2) [THEN bspec, of "''a''"] by simp
    have "pm [] = Some (max (ln (1/2) + the (?pe [])) (ln (1 - 1/2) + (\<Sum>c\<leftarrow>[''a'']. the (pm c))))"
      using 1(2) [THEN bspec, of "[]"] by simp
    then have "pm [] = Some (max (ln (1/2) + - 1) (ln (1 - 1/2) + (0 + - 2)))"
      using a by simp
    then show ?case using 1(1) a by blast
  qed
qed

section \<open>The scan of the joint sample\<close>

lemma for_each_invariant:
  assumes "for_each body xs st = Inr st'" and "P st"
    and "\<And>x a b. x \<in> set xs \<Longrightarrow> P a \<Longrightarrow> body a x = Inr b \<Longrightarrow> P b"
  shows "P st'"
  using assms
proof (induction xs arbitrary: st)
  case Nil
  then show ?case by simp
next
  case (Cons x xs)
  from Cons.prems(1) obtain st1 where b: "body st x = Inr st1" and r: "for_each body xs st1 = Inr st'"
    by (auto split: sum.splits)
  have "P st1" by (rule Cons.prems(3) [of x st st1]) (use Cons.prems(2) b in auto)
  moreover have "P b" if "y \<in> set xs" "P a" "body a y = Inr b" for y a b
    by (rule Cons.prems(3) [of y a b]) (use that in auto)
  ultimately show ?case by (rule Cons.IH [OF r])
qed

lemma window_slices:
  assumes "dm \<le> i" "i < length joint" "j \<le> dm"
  shows "py_slice_from (py_slice joint (int i - int dm) (int i + 1)) (- int j - 1)
           = present_at joint i j"
    and "py_slice_to (py_slice_from (py_slice joint (int i - int dm) (int i + 1)) (- int j - 1)) (- 1)
           = past_at joint i j"
proof -
  have lo: "py_bound (length joint) (int i - int dm) = i - dm"
    using assms by (simp add: py_bound_def min_def)
  have hi: "py_bound (length joint) (int i + 1) = Suc i"
    using assms by (simp add: py_bound_def min_def)
  have cur: "py_slice joint (int i - int dm) (int i + 1) = take (Suc dm) (drop (i - dm) joint)"
    using assms by (simp add: py_slice_def lo hi Let_def Suc_diff_le)
  have len: "length (take (Suc dm) (drop (i - dm) joint)) = Suc dm"
    using assms by simp
  have b: "py_bound (Suc dm) (- int j - 1) = dm - j"
    using assms by (simp add: py_bound_def max_def)
  have p: "py_slice_from (py_slice joint (int i - int dm) (int i + 1)) (- int j - 1)
        = drop (dm - j) (take (Suc dm) (drop (i - dm) joint))"
    unfolding cur py_slice_from_def len b ..
  have "drop (dm - j) (take (Suc dm) (drop (i - dm) joint)) = take (Suc j) (drop (i - j) joint)"
    using assms by (simp add: drop_take Suc_diff_le)
  then show 1: "py_slice_from (py_slice joint (int i - int dm) (int i + 1)) (- int j - 1)
           = present_at joint i j"
    using p by (simp add: present_at_def)
  have l: "length (present_at joint i j) = Suc j" using assms by (simp add: present_at_def)
  have "py_bound (Suc j) (- 1) = j" by (simp add: py_bound_def)
  then show "py_slice_to (py_slice_from (py_slice joint (int i - int dm) (int i + 1)) (- int j - 1)) (- 1)
           = past_at joint i j"
    unfolding 1 py_slice_to_def l by (simp add: present_at_def past_at_def)
qed

lemma present_at_snoc:
  assumes "j \<le> i" "i < length joint"
  shows "present_at joint i j = past_at joint i j @ [joint ! i]"
proof -
  have "drop (i - j) joint ! j = joint ! i" using assms by simp
  moreover have "j < length (drop (i - j) joint)" using assms by simp
  ultimately show ?thesis
    unfolding present_at_def past_at_def by (simp add: take_Suc_conv_app_nth)
qed

lemma length_past_at: "j \<le> i \<Longrightarrow> i < length joint \<Longrightarrow> length (past_at joint i j) = j"
  by (simp add: past_at_def)

lemma past_at_Suc:
  assumes "Suc j \<le> i" "i < length joint"
  shows "past_at joint i (Suc j) = joint ! (i - Suc j) # past_at joint i j"
proof -
  have "drop (i - Suc j) joint = joint ! (i - Suc j) # drop (Suc (i - Suc j)) joint"
    using assms by (simp add: Cons_nth_drop_Suc)
  moreover have "Suc (i - Suc j) = i - j" using assms by simp
  ultimately show ?thesis by (simp add: past_at_def)
qed

lemma scan_depth_Inr:
  "scan_depth cur tc j = Inr tc' \<longleftrightarrow>
     snd tc' = count_present (snd tc) (py_slice_from cur (- j - 1)) \<and>
     (if 1 \<le> j \<and> py_slice_to (py_slice_from cur (- j - 1)) (- 1) \<notin> nodes (fst tc)
      then add_node (fst tc) (py_slice_to (py_slice_from cur (- j - 1)) (- 1)) = Inr (fst tc')
      else fst tc' = fst tc)"
  by (cases tc') (auto simp: scan_depth_def Let_def split: sum.splits)

lemma length_slice_to_last: "length (py_slice_to xs (- 1)) = length xs - 1"
  by (cases xs) (auto simp: py_slice_to_def py_bound_def max_def min_def)

lemma length_past_le:
  assumes "0 \<le> j"
  shows "int (length (py_slice_to (py_slice_from cur (- j - 1)) (- 1))) \<le> j"
proof -
  have "int (length (py_slice_from cur (- j - 1))) \<le> j + 1"
    using assms by (auto simp: py_slice_from_def py_bound_def max_def)
  moreover have "length (py_slice_to (py_slice_from cur (- j - 1)) (- 1))
               = length (py_slice_from cur (- j - 1)) - 1"
    by (rule length_slice_to_last)
  ultimately show ?thesis using assms by linarith
qed

lemma scan_depth_wf:
  assumes "scan_depth cur tc j = Inr tc'" "tree_wf (fst tc)"
  shows "tree_wf (fst tc')"
  using assms tree_wf_add_node unfolding scan_depth_Inr by (auto split: if_splits)

lemma scan_depth_tree_s:
  assumes "scan_depth cur tc j = Inr tc'"
  shows "tree_s (fst tc') = tree_s (fst tc)"
  using assms add_node_tree_s unfolding scan_depth_Inr by (auto split: if_splits)

lemma scan_depth_length:
  assumes "scan_depth cur tc j = Inr tc'" "j \<le> dmax"
    and "\<forall>u\<in>nodes (fst tc). int (length u) \<le> max 0 dmax"
  shows "\<forall>u\<in>nodes (fst tc'). int (length u) \<le> max 0 dmax"
proof (cases "1 \<le> j \<and> py_slice_to (py_slice_from cur (- j - 1)) (- 1) \<notin> nodes (fst tc)")
  case False
  then show ?thesis using assms unfolding scan_depth_Inr by auto
next
  case True
  let ?past = "py_slice_to (py_slice_from cur (- j - 1)) (- 1)"
  have a: "add_node (fst tc) ?past = Inr (fst tc')"
    using assms(1) True unfolding scan_depth_Inr by simp
  have l: "int (length ?past) \<le> j" using True by (intro length_past_le) simp
  have n: "nodes (fst tc') = nodes (fst tc) \<union> (\<lambda>b. b # drop 1 ?past) ` set (tree_s (fst tc))"
    using a unfolding add_node_Inr by simp
  show ?thesis
  proof
    fix u assume "u \<in> nodes (fst tc')"
    then consider "u \<in> nodes (fst tc)" | b where "u = b # drop 1 ?past" unfolding n by blast
    then show "int (length u) \<le> max 0 dmax"
    proof cases
      case 1
      then show ?thesis using assms(3) by blast
    next
      case 2
      then show ?thesis using l True assms(2) by auto
    qed
  qed
qed

lemma scan_depth_ok:
  assumes "scan_depth cur tc j = Inr tc'" "j \<le> dmax" "scan_ok s dmax tc"
  shows "scan_ok s dmax tc'"
  using assms scan_depth_wf scan_depth_tree_s scan_depth_length unfolding scan_ok_def by metis

lemma scan_position_ok:
  assumes "scan_position dmax joint tc i = Inr tc'" "scan_ok s dmax tc"
  shows "scan_ok s dmax tc'"
proof -
  let ?cur = "py_slice joint (int i - dmax) (int i + 1)"
  have f: "for_each (scan_depth ?cur) [0..dmax] tc = Inr tc'"
    using assms(1) by (simp add: scan_position_def)
  show ?thesis
  proof (rule for_each_invariant [OF f, where P = "scan_ok s dmax"])
    show "scan_ok s dmax tc" by (rule assms(2))
  next
    fix x a b assume "x \<in> set [0..dmax]" "scan_ok s dmax a" "scan_depth ?cur a x = Inr b"
    then show "scan_ok s dmax b" using scan_depth_ok by simp
  qed
qed

lemma scan_ok_init: "scan_ok s dmax (Tree_init s, c)"
  using tree_wf_init by (simp add: scan_ok_def Tree_init_def)

lemma scan_all_ok:
  assumes "for_each (scan_position dmax joint) ps (Tree_init s, c) = Inr tc'"
  shows "scan_ok s dmax tc'"
proof (rule for_each_invariant [OF assms, where P = "scan_ok s dmax"])
  show "scan_ok s dmax (Tree_init s, c)" by (rule scan_ok_init)
next
  fix x a b assume "scan_ok s dmax a" "scan_position dmax joint a x = Inr b"
  then show "scan_ok s dmax b" using scan_position_ok by blast
qed

lemma construct_tau_max_Inr:
  "construct_tau_max iter s dmax sample initial_ctxt = Inr (tree, counter) \<longleftrightarrow>
     (\<exists>c. for_each (scan_position dmax (initial_ctxt @ sample))
             [length initial_ctxt..<length (initial_ctxt @ sample)]
             (Tree_init s, [[] \<mapsto> int (length sample)]) = Inr (tree, c)
        \<and> counter = fold (\<lambda>node c. fill_zero s c node) (iter (nodes tree)) c)"
  by (auto simp: construct_tau_max_def Let_def split: sum.splits)

lemma construct_tau_max_ok:
  assumes "construct_tau_max iter s dmax sample initial_ctxt = Inr (tree, counter)"
  shows "tree_wf tree" "tree_s tree = s" "\<forall>u\<in>nodes tree. int (length u) \<le> max 0 dmax"
  using assms scan_all_ok unfolding construct_tau_max_Inr scan_ok_def by fastforce+

lemma fold_count_present:
  "fold (\<lambda>p c. count_present c p) ps c =
     (\<lambda>p. if count_list ps p = 0 then c p
          else Some ((case c p of None \<Rightarrow> 0 | Some v \<Rightarrow> v) + int (count_list ps p)))"
proof (induction ps arbitrary: c)
  case Nil
  show ?case by simp
next
  case (Cons q ps)
  show ?case
    unfolding fold_simps Cons.IH
    by (rule ext) (auto simp: count_present_def split: option.splits)
qed

lemma scan_depth_counter:
  "for_each (scan_depth cur) js tc = Inr tc' \<Longrightarrow>
     snd tc' = fold (\<lambda>p c. count_present c p) (map (\<lambda>j. py_slice_from cur (- j - 1)) js) (snd tc)"
proof (induction js arbitrary: tc)
  case Nil
  then show ?case by simp
next
  case (Cons j js)
  from Cons.prems obtain tc1 where a: "scan_depth cur tc j = Inr tc1"
    and b: "for_each (scan_depth cur) js tc1 = Inr tc'"
    by (auto split: sum.splits)
  have "snd tc1 = count_present (snd tc) (py_slice_from cur (- j - 1))"
    using a unfolding scan_depth_Inr by simp
  then show ?case using Cons.IH [OF b] by simp
qed

lemma scan_position_counter:
  assumes "scan_position (int dm) joint tc i = Inr tc'" "dm \<le> i" "i < length joint"
  shows "snd tc' = fold (\<lambda>p c. count_present c p) (presents_of joint dm i) (snd tc)"
proof -
  let ?cur = "py_slice joint (int i - int dm) (int i + 1)"
  have f: "for_each (scan_depth ?cur) [0..int dm] tc = Inr tc'"
    using assms(1) by (simp add: scan_position_def)
  have "map (\<lambda>j. py_slice_from ?cur (- j - 1)) [0..int dm] = presents_of joint dm i"
    unfolding upto_int_nat map_map presents_of_def
  proof (rule map_cong [OF refl])
    fix j assume "j \<in> set [0..<Suc dm]"
    then have "j \<le> dm" by auto
    then show "((\<lambda>j. py_slice_from ?cur (- j - 1)) \<circ> int) j = present_at joint i j"
      using window_slices(1) [OF assms(2,3)] by simp
  qed
  then show ?thesis using scan_depth_counter [OF f] by simp
qed

lemma scan_all_counter:
  assumes "\<forall>i\<in>set ps. dm \<le> i \<and> i < length joint"
  shows "for_each (scan_position (int dm) joint) ps tc = Inr tc' \<Longrightarrow>
    snd tc' = fold (\<lambda>p c. count_present c p)
                (concat (map (presents_of joint dm) ps)) (snd tc)"
  using assms
proof (induction ps arbitrary: tc)
  case Nil
  then show ?case by simp
next
  case (Cons i ps)
  from Cons.prems(1) obtain tc1 where a: "scan_position (int dm) joint tc i = Inr tc1"
    and b: "for_each (scan_position (int dm) joint) ps tc1 = Inr tc'"
    by (auto split: sum.splits)
  have 1: "snd tc1 = fold (\<lambda>p c. count_present c p) (presents_of joint dm i) (snd tc)"
    using scan_position_counter [OF a] Cons.prems(2) by simp
  have 2: "snd tc' = fold (\<lambda>p c. count_present c p)
                (concat (map (presents_of joint dm) ps)) (snd tc1)"
    using Cons.IH [OF b] Cons.prems(2) by simp
  show ?case unfolding 2 1 by simp
qed

lemma count_list_concat_map:
  "count_list (concat (map g ps)) p = (\<Sum>i\<leftarrow>ps. count_list (g i) p)"
  by (induction ps) simp_all

lemma count_list_presents:
  assumes "dm \<le> i" "i < length joint"
  shows "count_list (presents_of joint dm i) (u @ [b])
           = (if length u \<le> dm \<and> present_at joint i (length u) = u @ [b] then 1 else 0)"
proof -
  have len: "length (present_at joint i j) = Suc j" if "j \<le> dm" for j
    using that assms by (simp add: present_at_def)
  have "count_list (map (present_at joint i) [0..<n]) (u @ [b])
           = (if length u < n \<and> present_at joint i (length u) = u @ [b] then 1 else 0)"
    if "n \<le> Suc dm" for n
    using that
  proof (induction n)
    case 0
    show ?case by simp
  next
    case (Suc n)
    then have n: "n \<le> dm" by simp
    have "present_at joint i n = u @ [b] \<Longrightarrow> n = length u"
      using len [OF n] by (metis Suc_inject length_append_singleton)
    then show ?case using Suc by (auto simp: less_Suc_eq)
  qed
  from this [of "Suc dm"] show ?thesis unfolding presents_of_def by (simp add: less_Suc_eq_le del: upt_Suc)
qed

lemma fill_zero_eq:
  "fill_zero s c n =
      (\<lambda>p. case c p of Some v \<Rightarrow> Some v
            | None \<Rightarrow> if \<exists>b\<in>set s. p = n @ [b] then Some 0 else None)"
proof -
  have one: "fold (\<lambda>transition c. if c transition = None then c(transition \<mapsto> 0) else c) ts c =
      (\<lambda>p. case c p of Some v \<Rightarrow> Some v | None \<Rightarrow> if p \<in> set ts then Some 0 else None)"
    for ts :: "string list" and c :: counter
  proof (induction ts arbitrary: c)
    case Nil
    show ?case by (auto split: option.splits)
  next
    case (Cons t ts)
    show ?case unfolding fold_simps Cons.IH
      by (rule ext) (auto split: option.splits)
  qed
  show ?thesis unfolding fill_zero_def one by (rule ext) (auto split: option.splits)
qed

lemma fold_fill_zero:
  "fold (\<lambda>node c. fill_zero s c node) ns c =
     (\<lambda>p. case c p of
            Some v \<Rightarrow> Some v
          | None \<Rightarrow> if \<exists>node\<in>set ns. \<exists>b\<in>set s. p = node @ [b] then Some 0 else None)"
proof (induction ns arbitrary: c)
  case Nil
  show ?case by (auto split: option.splits)
next
  case (Cons n ns)
  have "fold (\<lambda>node c. fill_zero s c node) (n # ns) c
          = fold (\<lambda>node c. fill_zero s c node) ns (fill_zero s c n)" by simp
  also have "\<dots> = (\<lambda>p. case fill_zero s c n p of
          Some v \<Rightarrow> Some v
        | None \<Rightarrow> if \<exists>node\<in>set ns. \<exists>b\<in>set s. p = node @ [b] then Some 0 else None)"
    by (rule Cons.IH)
  also have "\<dots> = (\<lambda>p. case c p of
          Some v \<Rightarrow> Some v
        | None \<Rightarrow> if \<exists>node\<in>set (n # ns). \<exists>b\<in>set s. p = node @ [b] then Some 0 else None)"
    unfolding fill_zero_eq by (rule ext) (auto split: option.splits)
  finally show ?case .
qed

lemma sum_list_indicator_distinct:
  "distinct s \<Longrightarrow> (\<Sum>b\<leftarrow>s. if P \<and> x = b then 1 else 0) = (if P \<and> x \<in> set s then 1 else (0::nat))"
  by (induction s) auto

lemma sum_list_swap:
  "(\<Sum>b\<leftarrow>s. \<Sum>i\<leftarrow>ps. f b i) = (\<Sum>i\<leftarrow>ps. \<Sum>b\<leftarrow>s. (f b i :: nat))"
  by (induction s) (simp_all add: sum_list_addf)

lemma length_filter_sum_list: "length (filter P xs) = (\<Sum>x\<leftarrow>xs. if P x then 1 else 0)"
  by (induction xs) simp_all

lemma count_list_presents_nil:
  assumes "dm \<le> i" "i < length joint"
  shows "count_list (presents_of joint dm i) [] = 0"
proof -
  have "present_at joint i j \<noteq> []" if "j \<le> dm" for j
    using that assms by (simp add: present_at_def)
  then have "[] \<notin> set (presents_of joint dm i)"
    unfolding presents_of_def by (auto simp del: upt_Suc simp: less_Suc_eq_le dest: sym)
  then show ?thesis by simp
qed

lemma scan_counter_value:
  assumes scan: "for_each (scan_position (int dm) joint) ps (t0, c0) = Inr (tree, c)"
    and ps: "\<forall>i\<in>set ps. dm \<le> i \<and> i < length joint"
  shows "c = (\<lambda>p. if count_list (concat (map (presents_of joint dm) ps)) p = 0
               then c0 p
               else Some ((case c0 p of None \<Rightarrow> 0 | Some v \<Rightarrow> v)
                   + int (count_list (concat (map (presents_of joint dm) ps)) p)))"
  using scan_all_counter [OF ps scan] unfolding fold_count_present snd_conv .

lemma scan_counter_nil:
  assumes scan: "for_each (scan_position (int dm) joint) ps (t0, c0) = Inr (tree, c)"
    and ps: "\<forall>i\<in>set ps. dm \<le> i \<and> i < length joint"
  shows "c [] = c0 []"
proof -
  have "count_list (concat (map (presents_of joint dm) ps)) [] = 0"
    unfolding count_list_concat_map using ps count_list_presents_nil
    by (simp add: sum_list_eq_0_iff)
  then show ?thesis by (subst scan_counter_value [OF scan ps]) simp
qed

lemma scan_counter_transition:
  assumes scan: "for_each (scan_position (int dm) joint) ps (t0, c0) = Inr (tree, c)"
    and ps: "\<forall>i\<in>set ps. dm \<le> i \<and> i < length joint"
    and c0: "c0 (u @ [b]) = None" and u: "length u \<le> dm"
  shows "(case c (u @ [b]) of None \<Rightarrow> 0 | Some v \<Rightarrow> v)
           = int (\<Sum>i\<leftarrow>ps. if past_at joint i (length u) = u \<and> joint ! i = b then 1 else 0)"
    and "c (u @ [b]) \<noteq> Some 0"
proof -
  let ?n = "count_list (concat (map (presents_of joint dm) ps)) (u @ [b])"
  have "?n = (\<Sum>i\<leftarrow>ps. count_list (presents_of joint dm i) (u @ [b]))"
    by (rule count_list_concat_map)
  also have "\<dots> = (\<Sum>i\<leftarrow>ps. if past_at joint i (length u) = u \<and> joint ! i = b then 1 else 0)"
  proof (rule arg_cong [where f = sum_list], rule map_cong [OF refl])
    fix i assume "i \<in> set ps"
    then have i: "dm \<le> i" "i < length joint" using ps by auto
    have "present_at joint i (length u) = past_at joint i (length u) @ [joint ! i]"
      using present_at_snoc [of "length u" i joint] u i by simp
    then show "count_list (presents_of joint dm i) (u @ [b])
        = (if past_at joint i (length u) = u \<and> joint ! i = b then 1 else 0)"
      unfolding count_list_presents [OF i] using u by simp
  qed
  finally have n: "?n = (\<Sum>i\<leftarrow>ps. if past_at joint i (length u) = u \<and> joint ! i = b then 1 else 0)" .
  have cv: "c (u @ [b]) = (if ?n = 0 then None else Some (int ?n))"
    unfolding scan_counter_value [OF scan ps] c0 by simp
  show "(case c (u @ [b]) of None \<Rightarrow> 0 | Some v \<Rightarrow> v)
           = int (\<Sum>i\<leftarrow>ps. if past_at joint i (length u) = u \<and> joint ! i = b then 1 else 0)"
    unfolding cv n [symmetric] by simp
  show "c (u @ [b]) \<noteq> Some 0" unfolding cv by simp
qed

lemma scan_counts:
  assumes "construct_tau_max iter s (int dm) sample initial_ctxt = Inr (tree, counter)"
    and "set_iteration iter" and "dm \<le> length initial_ctxt"
    and "distinct s" and "set sample \<subseteq> set s" and "u \<in> nodes tree"
  shows "(\<forall>b\<in>set s. counter (u @ [b]) \<noteq> None)
    \<and> (\<Sum>b\<leftarrow>s. the (counter (u @ [b]))) =
        int (length (filter (\<lambda>i. past_at (initial_ctxt @ sample) i (length u) = u)
                       [length initial_ctxt..<length (initial_ctxt @ sample)]))
    \<and> counter [] = Some (int (length sample))
    \<and> (\<forall>tc i tc'. length initial_ctxt \<le> i \<and> i < length (initial_ctxt @ sample)
          \<and> scan_position (int dm) (initial_ctxt @ sample) tc i = Inr tc'
          \<longrightarrow> snd tc' [] = snd tc [])
    \<and> (\<forall>c node. fill_zero s c node [] = c [])"
proof -
  let ?joint = "initial_ctxt @ sample"
  let ?ps = "[length initial_ctxt..<length ?joint]"
  let ?c0 = "[[] \<mapsto> int (length sample)]"
  obtain c where scan: "for_each (scan_position (int dm) ?joint) ?ps (Tree_init s, ?c0) = Inr (tree, c)"
    and fill: "counter = fold (\<lambda>node c. fill_zero s c node) (iter (nodes tree)) c"
    using assms(1) unfolding construct_tau_max_Inr by blast
  have ps: "\<forall>i\<in>set ?ps. dm \<le> i \<and> i < length ?joint" using assms(3) by auto
  have wf: "tree_wf tree" and len: "\<forall>u\<in>nodes tree. int (length u) \<le> max 0 (int dm)"
    using construct_tau_max_ok [OF assms(1)] by blast+
  have lu: "length u \<le> dm" using len assms(6) by fastforce
  have "finite (nodes tree)" using wf unfolding tree_wf_def by blast
  then have it: "set (iter (nodes tree)) = nodes tree"
    using assms(2) unfolding set_iteration_def by blast
  have cnt: "counter p = (case c p of Some v \<Rightarrow> Some v
          | None \<Rightarrow> if \<exists>node\<in>nodes tree. \<exists>b\<in>set s. p = node @ [b] then Some 0 else None)" for p
    unfolding fill fold_fill_zero it ..
  have val: "counter (u @ [b]) =
      Some (int (\<Sum>i\<leftarrow>?ps. if past_at ?joint i (length u) = u \<and> ?joint ! i = b then 1 else 0))"
    if b: "b \<in> set s" for b
  proof -
    have c0: "?c0 (u @ [b]) = None" by simp
    note tr = scan_counter_transition [OF scan ps c0 lu]
    show ?thesis
    proof (cases "c (u @ [b])")
      case None
      then show ?thesis using tr(1) assms(6) b unfolding cnt by auto
    next
      case (Some v)
      then show ?thesis using tr(1) unfolding cnt by simp
    qed
  qed
  have 1: "\<forall>b\<in>set s. counter (u @ [b]) \<noteq> None" using val by simp
  have "(\<Sum>b\<leftarrow>s. the (counter (u @ [b]))) =
      (\<Sum>b\<leftarrow>s. int (\<Sum>i\<leftarrow>?ps. if past_at ?joint i (length u) = u \<and> ?joint ! i = b then 1 else 0))"
    by (rule arg_cong [where f = sum_list], rule map_cong [OF refl]) (simp add: val)
  also have "\<dots> = int (\<Sum>b\<leftarrow>s. \<Sum>i\<leftarrow>?ps.
        if past_at ?joint i (length u) = u \<and> ?joint ! i = b then 1 else 0)"
    by (induction s) simp_all
  also have "(\<Sum>b\<leftarrow>s. \<Sum>i\<leftarrow>?ps. if past_at ?joint i (length u) = u \<and> ?joint ! i = b then 1 else 0)
      = (\<Sum>i\<leftarrow>?ps. \<Sum>b\<leftarrow>s. if past_at ?joint i (length u) = u \<and> ?joint ! i = b then 1 else (0::nat))"
    by (rule sum_list_swap)
  also have "\<dots> = (\<Sum>i\<leftarrow>?ps. if past_at ?joint i (length u) = u then 1 else 0)"
  proof (rule arg_cong [where f = sum_list], rule map_cong [OF refl])
    fix i assume "i \<in> set ?ps"
    then have "length initial_ctxt \<le> i" "i < length ?joint" by auto
    then have "?joint ! i \<in> set sample" by (simp add: nth_append)
    then have "?joint ! i \<in> set s" using assms(5) by blast
    then show "(\<Sum>b\<leftarrow>s. if past_at ?joint i (length u) = u \<and> ?joint ! i = b then 1 else (0::nat))
        = (if past_at ?joint i (length u) = u then 1 else 0)"
      unfolding sum_list_indicator_distinct [OF assms(4)] by simp
  qed
  also have "\<dots> = length (filter (\<lambda>i. past_at ?joint i (length u) = u) ?ps)"
    by (rule length_filter_sum_list [symmetric])
  finally have 2: "(\<Sum>b\<leftarrow>s. the (counter (u @ [b]))) =
        int (length (filter (\<lambda>i. past_at ?joint i (length u) = u) ?ps))" .
  have "c [] = Some (int (length sample))" using scan_counter_nil [OF scan ps] by simp
  then have 3: "counter [] = Some (int (length sample))" unfolding cnt by simp
  have 4: "snd tc' [] = snd tc []"
    if "length initial_ctxt \<le> i \<and> i < length ?joint
          \<and> scan_position (int dm) ?joint tc i = Inr tc'" for tc i tc'
  proof -
    have i: "dm \<le> i" "i < length ?joint" using that assms(3) by auto
    have "snd tc' = fold (\<lambda>p c. count_present c p) (presents_of ?joint dm i) (snd tc)"
      using scan_position_counter [OF _ i] that by blast
    then show ?thesis
      unfolding fold_count_present using count_list_presents_nil [OF i] by simp
  qed
  have 5: "fill_zero s c node [] = c []" for c node
    unfolding fill_zero_eq by (simp split: option.splits)
  show ?thesis using 1 2 3 4 5 by blast
qed

text \<open>
  Claim C3. Let \<open>construct_tau_max\<close> return a tree and a counter for an initial context at
  least \<open>dmax\<close> long, an alphabet of distinct symbols and a sample over that alphabet. For
  every node \<open>u\<close> of the tree, all the entries \<open>u + b\<close> exist and their sum over the symbols
  \<open>b\<close> is the number of scanned positions \<open>i\<close> (from \<open>len(initial_ctxt)\<close> to the end of the joint
  sample) at which the last \<open>len(u)\<close> symbols before \<open>i\<close> equal \<open>u\<close>. The entry of the root
  \<open>""\<close> is \<open>len(sample)\<close>: it is set before the scan, and neither a turn of the scan loop nor
  the zero-filling of a node modifies it.
\<close>

theorem count_conservation:
  assumes "construct_tau_max iter s (int dm) sample initial_ctxt = Inr (tree, counter)"
    and "set_iteration iter" and "dm \<le> length initial_ctxt"
    and "distinct s" and "set sample \<subseteq> set s" and "u \<in> nodes tree"
  shows "(\<forall>b\<in>set s. counter (u @ [b]) \<noteq> None)
    \<and> (\<Sum>b\<leftarrow>s. the (counter (u @ [b]))) =
        int (length (filter (\<lambda>i. past_at (initial_ctxt @ sample) i (length u) = u)
                       [length initial_ctxt..<length (initial_ctxt @ sample)]))
    \<and> counter [] = Some (int (length sample))
    \<and> (\<forall>tc i tc'. length initial_ctxt \<le> i \<and> i < length (initial_ctxt @ sample)
          \<and> scan_position (int dm) (initial_ctxt @ sample) tc i = Inr tc'
          \<longrightarrow> snd tc' [] = snd tc [])
    \<and> (\<forall>c node. fill_zero s c node [] = c [])"
  using assms by (rule scan_counts)

lemma scan_example_ab:
  "case construct_tau_max sorted_list_of_set ''ab'' (int 1) ''ab'' ''a'' of
     Inl _ \<Rightarrow> False
   | Inr (t, c) \<Rightarrow> ''a'' \<in> nodes t"
  by code_simp

theorem count_conservation_witness:
  "\<exists>tree counter.
     construct_tau_max sorted_list_of_set ''ab'' (int 1) ''ab'' ''a'' = Inr (tree, counter)
     \<and> ''a'' \<in> nodes tree
     \<and> (\<Sum>b\<leftarrow>''ab''. the (counter (''a'' @ [b]))) = 2
     \<and> counter [] = Some 2"
proof -
  obtain tree counter
    where c: "construct_tau_max sorted_list_of_set ''ab'' (int 1) ''ab'' ''a'' = Inr (tree, counter)"
      and a: "''a'' \<in> nodes tree"
    using scan_example_ab by (auto split: sum.splits)
  have d: "distinct ''ab''" and s: "set ''ab'' \<subseteq> set ''ab''" and l: "1 \<le> length ''a''" by simp_all
  have f: "length (filter (\<lambda>i. past_at (''a'' @ ''ab'') i (length ''a'') = ''a'')
                       [length ''a''..<length (''a'' @ ''ab'')]) = 2"
    by (simp add: past_at_def upt_rec)
  show ?thesis
    using count_conservation [OF c set_iteration_sorted l d s a] c a unfolding f by auto
qed

section \<open>Leaves above the maximal depth\<close>

lemma for_each_establish:
  assumes "for_each body xs st = Inr st'" and "P st"
    and "\<And>x a b. x \<in> set xs \<Longrightarrow> P a \<Longrightarrow> body a x = Inr b \<Longrightarrow> P b \<and> Q x b"
    and "\<And>x y a b. x \<in> set xs \<Longrightarrow> P a \<Longrightarrow> Q y a \<Longrightarrow> body a x = Inr b \<Longrightarrow> Q y b"
  shows "P st' \<and> (\<forall>x\<in>set xs. Q x st')"
  using assms
proof (induction xs arbitrary: st)
  case Nil
  have "st' = st" using Nil.prems(1) by simp
  then show ?case using Nil.prems(2) by simp
next
  case (Cons x xs)
  from Cons.prems(1) obtain st1 where b: "body st x = Inr st1" and r: "for_each body xs st1 = Inr st'"
    by (auto split: sum.splits)
  have xin: "x \<in> set (x # xs)" by simp
  have 1: "P st1 \<and> Q x st1" by (rule Cons.prems(3) [OF xin Cons.prems(2) b])
  have step: "P b \<and> Q y b" if "y \<in> set xs" "P a" "body a y = Inr b" for y a b
  proof -
    have "y \<in> set (x # xs)" using that(1) by simp
    then show ?thesis using that(2,3) by (rule Cons.prems(3))
  qed
  have keep: "Q y b" if "z \<in> set xs" "P a" "Q y a" "body a z = Inr b" for z y a b
  proof -
    have "z \<in> set (x # xs)" using that(1) by simp
    then show ?thesis using that(2,3,4) by (rule Cons.prems(4))
  qed
  have ih: "P st' \<and> (\<forall>y\<in>set xs. Q y st')"
  proof (rule Cons.IH [OF r])
    show "P st1" using 1 ..
  next
    fix y a b assume "y \<in> set xs" "P a" "body a y = Inr b"
    then show "P b \<and> Q y b" by (rule step)
  next
    fix z y a b assume "z \<in> set xs" "P a" "Q y a" "body a z = Inr b"
    then show "Q y b" by (rule keep)
  qed
  have pq: "P st' \<and> Q x st'"
  proof (rule for_each_invariant [OF r, where P = "\<lambda>a. P a \<and> Q x a"])
    show "P st1 \<and> Q x st1" by (rule 1)
  next
    fix z a b assume z: "z \<in> set xs" "P a \<and> Q x a" "body a z = Inr b"
    have pa: "P a" and qa: "Q x a" using z(2) by (rule conjunct1, rule conjunct2)
    have "P b" using step [OF z(1) pa z(3)] by (rule conjunct1)
    moreover have "Q x b" by (rule keep [OF z(1) pa qa z(3)])
    ultimately show "P b \<and> Q x b" ..
  qed
  have qx: "Q x st'" using pq by (rule conjunct2)
  have ps: "P st'" using pq by (rule conjunct1)
  have all: "\<forall>y\<in>set xs. Q y st'" using ih by (rule conjunct2)
  have "\<forall>y\<in>set (x # xs). Q y st'"
  proof
    fix y assume "y \<in> set (x # xs)"
    then have "y = x \<or> y \<in> set xs" by simp
    then show "Q y st'"
    proof
      assume "y = x" then show ?thesis using qx by (rule ssubst)
    next
      assume "y \<in> set xs" with all show ?thesis by (rule bspec)
    qed
  qed
  then show ?case using ps by (rule conjI [rotated])
qed

lemma for_each_map:
  "for_each body (map g xs) st = for_each (\<lambda>a x. body a (g x)) xs st"
  by (induction xs arbitrary: st) (auto split: sum.splits)

lemma scan_depth_keys_grow:
  assumes "scan_depth cur tc j = Inr tc'" "edges (fst tc) k \<noteq> None"
  shows "edges (fst tc') k \<noteq> None"
  using assms unfolding scan_depth_Inr add_node_Inr by (auto split: if_splits)

lemma scan_position_keys_grow:
  assumes "scan_position dmax joint tc i = Inr tc'" "edges (fst tc) k \<noteq> None"
  shows "edges (fst tc') k \<noteq> None"
proof -
  let ?cur = "py_slice joint (int i - dmax) (int i + 1)"
  have f: "for_each (scan_depth ?cur) [0..dmax] tc = Inr tc'"
    using assms(1) by (simp add: scan_position_def)
  show ?thesis
  proof (rule for_each_invariant [OF f, where P = "\<lambda>a. edges (fst a) k \<noteq> None"])
    show "edges (fst tc) k \<noteq> None" by (rule assms(2))
  next
    fix x a b assume "scan_depth ?cur a x = Inr b" "edges (fst a) k \<noteq> None"
    then show "edges (fst b) k \<noteq> None" by (rule scan_depth_keys_grow)
  qed
qed

lemma scan_depth_parent_key:
  assumes sd: "scan_depth (py_slice joint (int i - int dm) (int i + 1)) tc (int j) = Inr tc'"
    and i: "dm \<le> i" "i < length joint" and j: "1 \<le> j" "j \<le> dm" and wf: "tree_wf (fst tc)"
  shows "edges (fst tc') (tl (past_at joint i j)) \<noteq> None"
proof -
  let ?past = "past_at joint i j"
  have ne: "?past \<noteq> []" using length_past_at [of j i joint] i j by auto
  note w = window_slices [OF i j(2)]
  have w2: "py_slice_to (present_at joint i j) (- 1) = past_at joint i j"
    using w by simp
  show ?thesis
  proof (cases "?past \<in> nodes (fst tc)")
    case True
    then have "fst tc' = fst tc" using sd unfolding scan_depth_Inr w(1) w2 by simp
    moreover have "edges (fst tc) (tl ?past) \<noteq> None"
      using wf True ne unfolding tree_wf_def by blast
    ultimately show ?thesis by simp
  next
    case False
    then have "add_node (fst tc) ?past = Inr (fst tc')"
      using sd j(1) unfolding scan_depth_Inr w(1) w2 by simp
    then show ?thesis unfolding add_node_Inr by (simp add: drop_Suc)
  qed
qed

lemma scan_position_context_keys:
  assumes sp: "scan_position (int dm) joint tc i = Inr tc'"
    and i: "dm \<le> i" "i < length joint" and ok: "scan_ok s (int dm) tc"
  shows "\<forall>j<dm. edges (fst tc') (past_at joint i j) \<noteq> None"
proof -
  let ?cur = "py_slice joint (int i - int dm) (int i + 1)"
  have f: "for_each (\<lambda>a j. scan_depth ?cur a (int j)) [0..<Suc dm] tc = Inr tc'"
    using sp unfolding scan_position_def Let_def upto_int_nat for_each_map .
  have "scan_ok s (int dm) tc' \<and>
      (\<forall>j\<in>set [0..<Suc dm]. 1 \<le> j \<longrightarrow> edges (fst tc') (tl (past_at joint i j)) \<noteq> None)"
  proof (rule for_each_establish [OF f, where P = "scan_ok s (int dm)"])
    show "scan_ok s (int dm) tc" by (rule ok)
  next
    fix j a b assume a: "j \<in> set [0..<Suc dm]" "scan_ok s (int dm) a"
      "scan_depth ?cur a (int j) = Inr b"
    then have jd: "j \<le> dm" by auto
    have "scan_ok s (int dm) b" using scan_depth_ok [OF a(3) _ a(2)] jd by simp
    moreover have "1 \<le> j \<longrightarrow> edges (fst b) (tl (past_at joint i j)) \<noteq> None"
    proof
      assume "1 \<le> j"
      moreover have "tree_wf (fst a)" using a(2) unfolding scan_ok_def by simp
      ultimately show "edges (fst b) (tl (past_at joint i j)) \<noteq> None"
        using scan_depth_parent_key [OF a(3) i _ jd] by simp
    qed
    ultimately show "scan_ok s (int dm) b
        \<and> (1 \<le> j \<longrightarrow> edges (fst b) (tl (past_at joint i j)) \<noteq> None)" by blast
  next
    fix x y a b
    assume "1 \<le> y \<longrightarrow> edges (fst a) (tl (past_at joint i y)) \<noteq> None"
      "scan_depth ?cur a (int x) = Inr b"
    then show "1 \<le> y \<longrightarrow> edges (fst b) (tl (past_at joint i y)) \<noteq> None"
      using scan_depth_keys_grow [of ?cur a "int x" b] by simp
  qed
  then have k: "\<And>j. 1 \<le> j \<Longrightarrow> j \<le> dm \<Longrightarrow> edges (fst tc') (tl (past_at joint i j)) \<noteq> None"
    by auto
  show ?thesis
  proof (intro allI impI)
    fix j assume "j < dm"
    then have "edges (fst tc') (tl (past_at joint i (Suc j))) \<noteq> None" using k [of "Suc j"] by simp
    moreover have "past_at joint i (Suc j) = joint ! (i - Suc j) # past_at joint i j"
      using past_at_Suc [of j i joint] i \<open>j < dm\<close> by simp
    ultimately show "edges (fst tc') (past_at joint i j) \<noteq> None" by simp
  qed
qed

lemma scan_all_context_keys:
  assumes f: "for_each (scan_position (int dm) joint) ps tc = Inr tc'"
    and ps: "\<forall>i\<in>set ps. dm \<le> i \<and> i < length joint" and ok: "scan_ok s (int dm) tc"
  shows "\<forall>i\<in>set ps. \<forall>j<dm. edges (fst tc') (past_at joint i j) \<noteq> None"
proof -
  have "scan_ok s (int dm) tc' \<and>
      (\<forall>i\<in>set ps. \<forall>j<dm. edges (fst tc') (past_at joint i j) \<noteq> None)"
  proof (rule for_each_establish [OF f, where P = "scan_ok s (int dm)"])
    show "scan_ok s (int dm) tc" by (rule ok)
  next
    fix i a b assume a: "i \<in> set ps" "scan_ok s (int dm) a" "scan_position (int dm) joint a i = Inr b"
    then have i: "dm \<le> i" "i < length joint" using ps by auto
    show "scan_ok s (int dm) b \<and> (\<forall>j<dm. edges (fst b) (past_at joint i j) \<noteq> None)"
      using scan_position_ok [OF a(3) a(2)] scan_position_context_keys [OF a(3) i a(2)] by simp
  next
    fix x y a b
    assume "\<forall>j<dm. edges (fst a) (past_at joint y j) \<noteq> None"
      "scan_position (int dm) joint a x = Inr b"
    then show "\<forall>j<dm. edges (fst b) (past_at joint y j) \<noteq> None"
      using scan_position_keys_grow [of "int dm" joint a x b] by simp
  qed
  then show ?thesis ..
qed

lemma calc_log_pe_zero:
  assumes "\<forall>b\<in>set s. counter (u @ [b]) = Some 0"
  shows "calc_log_pe s counter u = Inr 0"
proof -
  have "\<forall>b\<in>set s. counter (u @ [b]) \<noteq> None" using assms by simp
  then have th: "those (map (\<lambda>b. counter (u @ [b])) s) = Some (map (\<lambda>b. the (counter (u @ [b]))) s)"
    by (rule those_map_defined)
  have z: "map (\<lambda>b. the (counter (u @ [b]))) s = replicate (length s) 0"
    using assms by (simp add: map_eq_replicate_zero)
  show ?thesis unfolding calc_log_pe_def th using z by simp
qed

lemma sum_list_indicator_pos:
  "(\<Sum>i\<leftarrow>ps. if P i then 1 else (0::nat)) \<noteq> 0 \<Longrightarrow> \<exists>i\<in>set ps. P i"
  by (induction ps) (auto split: if_splits)

lemma shallow_leaf_unseen:
  assumes scan: "for_each (scan_position (int dm) joint) ps (Tree_init s, c0) = Inr (tree, c)"
    and ps: "\<forall>i\<in>set ps. dm \<le> i \<and> i < length joint"
    and c0: "c0 (u @ [b]) = None" and leaf: "edges tree u = None" and lu: "length u < dm"
  shows "c (u @ [b]) = None"
proof (rule ccontr)
  assume ne: "c (u @ [b]) \<noteq> None"
  have lu': "length u \<le> dm" using lu by simp
  note tr = scan_counter_transition [OF scan ps c0 lu']
  from ne obtain v where v: "c (u @ [b]) = Some v" by auto
  have "v \<noteq> 0" using tr(2) v by simp
  then have "(\<Sum>i\<leftarrow>ps. if past_at joint i (length u) = u \<and> joint ! i = b then 1 else (0::nat)) \<noteq> 0"
    using tr(1) v by auto
  then obtain i where i: "i \<in> set ps" "past_at joint i (length u) = u"
    using sum_list_indicator_pos [of "\<lambda>i. past_at joint i (length u) = u \<and> joint ! i = b" ps]
    by blast
  have "edges (fst (tree, c)) (past_at joint i (length u)) \<noteq> None"
    using scan_all_context_keys [OF scan ps scan_ok_init] i(1) lu by blast
  then show False using i(2) leaf by simp
qed

text \<open>
  Claim C10. In the tree and counter returned by \<open>construct_tau_max\<close> (initial context at
  least \<open>dmax\<close> long), a leaf whose depth is strictly less than \<open>dmax\<close> has all its \<open>m\<close>
  transition counts equal to 0: a context observed at a depth below \<open>dmax\<close> is always given
  children by the next depth of the same window. Hence \<open>calc_log_pe\<close> returns 0 on such a
  leaf, and what \<open>construct_log_pm_dict\<close> stores for it, \<open>ln beta\<close>, is \<open>ln beta + log_pe u\<close>.
\<close>

theorem shallow_leaf_zero_counts:
  assumes "construct_tau_max iter s (int dm) sample initial_ctxt = Inr (tree, counter)"
    and "set_iteration iter" and "dm \<le> length initial_ctxt"
    and "u \<in> nodes tree" and "edges tree u = None" and "length u < dm"
  shows "(\<forall>b\<in>set s. counter (u @ [b]) = Some 0)
    \<and> calc_log_pe s counter u = Inr 0
    \<and> (\<forall>log_pe_dict log_pm_dict pe.
          calc_log_pe s counter u = Inr pe \<and> log_pe_dict u = Some pe \<longrightarrow>
          log_pm_node (int dm) beta tree log_pe_dict (int (length u)) log_pm_dict u
            = Inr (log_pm_dict(u \<mapsto> ln beta + pe)))"
proof -
  let ?joint = "initial_ctxt @ sample"
  let ?ps = "[length initial_ctxt..<length ?joint]"
  let ?c0 = "[[] \<mapsto> int (length sample)]"
  obtain c where scan: "for_each (scan_position (int dm) ?joint) ?ps (Tree_init s, ?c0) = Inr (tree, c)"
    and fill: "counter = fold (\<lambda>node c. fill_zero s c node) (iter (nodes tree)) c"
    using assms(1) unfolding construct_tau_max_Inr by blast
  have ps: "\<forall>i\<in>set ?ps. dm \<le> i \<and> i < length ?joint" using assms(3) by auto
  have wf: "tree_wf tree" using construct_tau_max_ok [OF assms(1)] by blast
  have "finite (nodes tree)" using wf unfolding tree_wf_def by blast
  then have it: "set (iter (nodes tree)) = nodes tree"
    using assms(2) unfolding set_iteration_def by blast
  have cnt: "counter p = (case c p of Some v \<Rightarrow> Some v
          | None \<Rightarrow> if \<exists>node\<in>nodes tree. \<exists>b\<in>set s. p = node @ [b] then Some 0 else None)" for p
    unfolding fill fold_fill_zero it ..
  have zero: "counter (u @ [b]) = Some 0" if b: "b \<in> set s" for b
  proof -
    have c0: "?c0 (u @ [b]) = None" by simp
    have "c (u @ [b]) = None"
      by (rule shallow_leaf_unseen [OF scan ps c0 assms(5,6)])
    then show ?thesis unfolding cnt using assms(4) b by auto
  qed
  then have 1: "\<forall>b\<in>set s. counter (u @ [b]) = Some 0" by blast
  then have 2: "calc_log_pe s counter u = Inr 0" by (rule calc_log_pe_zero)
  have ne: "int (length u) \<noteq> int dm" using assms(6) by simp
  have 3: "log_pm_node (int dm) beta tree log_pe_dict (int (length u)) log_pm_dict u
            = Inr (log_pm_dict(u \<mapsto> ln beta + pe))"
    if "calc_log_pe s counter u = Inr pe \<and> log_pe_dict u = Some pe"
    for log_pe_dict log_pm_dict pe
  proof -
    have "pe = 0" using that 2 by simp
    then show ?thesis unfolding log_pm_node_def using ne assms(5) by simp
  qed
  show ?thesis using 1 2 3 by blast
qed

lemma scan_example_aaab:
  "case construct_tau_max sorted_list_of_set ''ab'' (int 2) ''ab'' ''aa'' of
     Inl _ \<Rightarrow> False
   | Inr (t, c) \<Rightarrow> ''b'' \<in> nodes t \<and> edges t ''b'' = None"
  by code_simp

theorem shallow_leaf_zero_counts_witness:
  "\<exists>tree counter.
     construct_tau_max sorted_list_of_set ''ab'' (int 2) ''ab'' ''aa'' = Inr (tree, counter)
     \<and> ''b'' \<in> nodes tree \<and> edges tree ''b'' = None
     \<and> counter ''ba'' = Some 0 \<and> counter ''bb'' = Some 0
     \<and> calc_log_pe ''ab'' counter ''b'' = Inr 0"
proof -
  obtain tree counter
    where c: "construct_tau_max sorted_list_of_set ''ab'' (int 2) ''ab'' ''aa'' = Inr (tree, counter)"
      and a: "''b'' \<in> nodes tree" "edges tree ''b'' = None"
    using scan_example_aaab by (auto split: sum.splits)
  have l: "2 \<le> length ''aa''" "length ''b'' < 2" by simp_all
  show ?thesis
    using shallow_leaf_zero_counts [OF c set_iteration_sorted l(1) a l(2)] c a by auto
qed

section \<open>The entry point\<close>

lemma past_at_zero: "past_at joint i 0 = []"
  by (simp add: past_at_def)

lemma scan_depth_succeeds:
  assumes i: "dm \<le> i" "i < length joint" and j: "j \<le> dm"
    and sym: "set joint \<subseteq> set s"
    and ok: "scan_ok s (int dm) tc"
    and prev: "past_at joint i (j - 1) \<in> nodes (fst tc)"
  shows "\<exists>tc'. scan_depth (py_slice joint (int i - int dm) (int i + 1)) tc (int j) = Inr tc'
            \<and> scan_ok s (int dm) tc' \<and> past_at joint i j \<in> nodes (fst tc')"
proof -
  let ?cur = "py_slice joint (int i - int dm) (int i + 1)"
  let ?past = "past_at joint i j"
  note w = window_slices [OF i j]
  have w2: "py_slice_to (present_at joint i j) (- 1) = ?past" using w by simp
  have wf: "tree_wf (fst tc)" and ts: "tree_s (fst tc) = s" using ok unfolding scan_ok_def by simp_all
  show ?thesis
  proof (cases "1 \<le> j \<and> ?past \<notin> nodes (fst tc)")
    case False
    define tc' where "tc' = (fst tc, count_present (snd tc) (present_at joint i j))"
    have sd: "scan_depth ?cur tc (int j) = Inr tc'"
      unfolding scan_depth_Inr w(1) w2 using False by (auto simp: tc'_def)
    have "?past \<in> nodes (fst tc)"
    proof (cases "j = 0")
      case True
      then show ?thesis using wf by (simp add: past_at_zero tree_wf_def)
    next
      case False
      then show ?thesis using \<open>\<not> (1 \<le> j \<and> ?past \<notin> nodes (fst tc))\<close> by simp
    qed
    then have "?past \<in> nodes (fst tc')" by (simp add: tc'_def)
    moreover have "scan_ok s (int dm) tc'" using scan_depth_ok [OF sd _ ok] j by simp
    ultimately show ?thesis using sd by blast
  next
    case True
    then have j1: "1 \<le> j" by simp
    then obtain k where k: "j = Suc k" by (cases j) auto
    have ps: "?past = joint ! (i - j) # past_at joint i (j - 1)"
      using past_at_Suc [of k i joint] i j k by simp
    then have d1: "drop 1 ?past = past_at joint i (j - 1)" by simp
    define t' where "t' = (fst tc)\<lparr>nodes := nodes (fst tc) \<union> (\<lambda>b. b # drop 1 ?past) ` set (tree_s (fst tc)),
            edges := (edges (fst tc))(drop 1 ?past \<mapsto> map (\<lambda>b. b # drop 1 ?past) (tree_s (fst tc)))\<rparr>"
    have an: "add_node (fst tc) ?past = Inr t'"
      unfolding add_node_Inr t'_def using prev d1 by simp
    define tc' where "tc' = (t', count_present (snd tc) (present_at joint i j))"
    have sd: "scan_depth ?cur tc (int j) = Inr tc'"
      unfolding scan_depth_Inr w(1) w2 using True an by (auto simp: tc'_def)
    have "joint ! (i - j) \<in> set joint" using i by simp
    then have "joint ! (i - j) \<in> set s" using sym by blast
    then have "?past \<in> nodes t'" unfolding t'_def ts d1 by (subst ps) simp
    then have "?past \<in> nodes (fst tc')" by (simp add: tc'_def)
    moreover have "scan_ok s (int dm) tc'" using scan_depth_ok [OF sd _ ok] j by simp
    ultimately show ?thesis using sd by blast
  qed
qed

lemma scan_depths_succeed:
  assumes i: "dm \<le> i" "i < length joint" and sym: "set joint \<subseteq> set s"
  shows "n + k = Suc dm \<Longrightarrow> scan_ok s (int dm) tc \<Longrightarrow> past_at joint i (k - 1) \<in> nodes (fst tc)
    \<Longrightarrow> \<exists>tc'. for_each (\<lambda>a j. scan_depth (py_slice joint (int i - int dm) (int i + 1)) a (int j))
                [k..<Suc dm] tc = Inr tc' \<and> scan_ok s (int dm) tc'"
proof (induction n arbitrary: k tc)
  case 0
  then have "[k..<Suc dm] = []" by simp
  then show ?case using 0 by simp
next
  case (Suc n)
  then have k: "k \<le> dm" by simp
  then have l: "[k..<Suc dm] = k # [Suc k..<Suc dm]" by (simp add: upt_conv_Cons)
  obtain tc1 where s1: "scan_depth (py_slice joint (int i - int dm) (int i + 1)) tc (int k) = Inr tc1"
    and ok1: "scan_ok s (int dm) tc1" and p1: "past_at joint i k \<in> nodes (fst tc1)"
    using scan_depth_succeeds [OF i k sym Suc.prems(2,3)] by blast
  have "\<exists>tc'. for_each (\<lambda>a j. scan_depth (py_slice joint (int i - int dm) (int i + 1)) a (int j))
                [Suc k..<Suc dm] tc1 = Inr tc' \<and> scan_ok s (int dm) tc'"
    by (rule Suc.IH) (use Suc.prems(1) ok1 p1 in simp_all)
  then show ?case unfolding l using s1 by simp
qed

lemma scan_position_succeeds:
  assumes i: "dm \<le> i" "i < length joint" and sym: "set joint \<subseteq> set s"
    and ok: "scan_ok s (int dm) tc"
  shows "\<exists>tc'. scan_position (int dm) joint tc i = Inr tc' \<and> scan_ok s (int dm) tc'"
proof -
  have "[] \<in> nodes (fst tc)" using ok unfolding scan_ok_def tree_wf_def by simp
  then have "past_at joint i (0 - 1) \<in> nodes (fst tc)" by (simp add: past_at_zero)
  then show ?thesis
    unfolding scan_position_def Let_def upto_int_nat for_each_map
    using scan_depths_succeed [OF i sym, of "Suc dm" 0 tc] ok by simp
qed

lemma scan_all_succeeds:
  assumes sym: "set joint \<subseteq> set s"
  shows "\<forall>i\<in>set ps. dm \<le> i \<and> i < length joint \<Longrightarrow> scan_ok s (int dm) tc
    \<Longrightarrow> \<exists>tc'. for_each (scan_position (int dm) joint) ps tc = Inr tc'"
proof (induction ps arbitrary: tc)
  case Nil
  show ?case by simp
next
  case (Cons i ps)
  then have i: "dm \<le> i" "i < length joint" by simp_all
  obtain tc1 where 1: "scan_position (int dm) joint tc i = Inr tc1" "scan_ok s (int dm) tc1"
    using scan_position_succeeds [OF i sym Cons.prems(2)] by blast
  have "\<exists>tc'. for_each (scan_position (int dm) joint) ps tc1 = Inr tc'"
    by (rule Cons.IH) (use Cons.prems(1) 1(2) in simp_all)
  then show ?case using 1(1) by simp
qed

lemma construct_tau_max_succeeds:
  assumes "dm \<le> length initial_ctxt" "set (initial_ctxt @ sample) \<subseteq> set s"
  shows "\<exists>tree counter. construct_tau_max iter s (int dm) sample initial_ctxt = Inr (tree, counter)"
proof -
  have "\<forall>i\<in>set [length initial_ctxt..<length (initial_ctxt @ sample)].
          dm \<le> i \<and> i < length (initial_ctxt @ sample)" using assms(1) by auto
  then obtain tc' where "for_each (scan_position (int dm) (initial_ctxt @ sample))
       [length initial_ctxt..<length (initial_ctxt @ sample)]
       (Tree_init s, [[] \<mapsto> int (length sample)]) = Inr tc'"
    using scan_all_succeeds [OF assms(2) _ scan_ok_init] by blast
  then show ?thesis unfolding construct_tau_max_def Let_def by simp
qed

lemma calc_log_pe_error: "calc_log_pe s counter u = Inl e \<Longrightarrow> e = KeyError"
  by (auto simp: calc_log_pe_def Let_def split: option.splits if_splits)

lemma calc_log_pe_defined:
  assumes "\<forall>b\<in>set s. counter (u @ [b]) \<noteq> None"
  shows "\<exists>v. calc_log_pe s counter u = Inr v"
proof -
  have "those (map (\<lambda>b. counter (u @ [b])) s) = Some (map (\<lambda>b. the (counter (u @ [b]))) s)"
    using assms by (rule those_map_defined)
  then show ?thesis by (simp add: calc_log_pe_def Let_def)
qed

lemma for_each_dict:
  assumes "\<And>u e. f u = Inl e \<Longrightarrow> e = KeyError"
  shows "for_each (\<lambda>d u. case f u of Inl err \<Rightarrow> Inl err | Inr v \<Rightarrow> Inr (d(u \<mapsto> v))) ns d0 =
           (if \<exists>u\<in>set ns. isl (f u) then Inl KeyError
            else Inr (\<lambda>u. if u \<in> set ns then Some (projr (f u)) else d0 u))"
proof (induction ns arbitrary: d0)
  case Nil
  show ?case by simp
next
  case (Cons x ns)
  show ?case
  proof (cases "f x")
    case (Inl e)
    then have "e = KeyError" by (rule assms)
    then show ?thesis using Inl by simp
  next
    case (Inr v)
    let ?body = "\<lambda>d u. case f u of Inl err \<Rightarrow> Inl err | Inr v \<Rightarrow> Inr (d(u \<mapsto> v))"
    have a: "(\<lambda>u. if u \<in> set ns then Some (projr (f u)) else (d0(x \<mapsto> v)) u)
        = (\<lambda>u. if u \<in> set (x # ns) then Some (projr (f u)) else d0 u)"
      using Inr by (auto simp: fun_eq_iff)
    have b: "(\<exists>u\<in>set ns. isl (f u)) = (\<exists>u\<in>set (x # ns). isl (f u))"
      using Inr by simp
    have "for_each ?body (x # ns) d0 = for_each ?body ns (d0(x \<mapsto> v))"
      using Inr by simp
    also have "\<dots> = (if \<exists>u\<in>set ns. isl (f u) then Inl KeyError
            else Inr (\<lambda>u. if u \<in> set ns then Some (projr (f u)) else (d0(x \<mapsto> v)) u))"
      by (rule Cons.IH)
    finally show ?thesis unfolding a b .
  qed
qed

lemma log_pe_dict_of_eq:
  assumes "set_iteration iter" "finite (nodes tau)"
  shows "log_pe_dict_of iter s counter tau =
           (if \<exists>u\<in>nodes tau. isl (calc_log_pe s counter u) then Inl KeyError
            else Inr (\<lambda>u. if u \<in> nodes tau then Some (projr (calc_log_pe s counter u)) else None))"
proof -
  have it: "set (iter (nodes tau)) = nodes tau" using assms unfolding set_iteration_def by blast
  show ?thesis
    unfolding log_pe_dict_of_def
    by (subst for_each_dict [where f = "calc_log_pe s counter"])
       (simp_all add: calc_log_pe_error it)
qed

lemma for_each_cong:
  "(\<And>st x. x \<in> set xs \<Longrightarrow> body st x = body' st x) \<Longrightarrow> for_each body xs st = for_each body' xs st"
  by (induction xs arbitrary: st) (auto split: sum.splits)

lemma tree_wf_child_length:
  assumes "tree_wf t" "u \<in> nodes t" "edges t u = Some cs" "c \<in> set cs"
  shows "length c \<noteq> length u"
  using tree_wf_children [OF assms(1,3,4)] by simp

lemma construct_log_pm_dict_iter:
  assumes "set_iteration iter1" "set_iteration iter2" "tree_wf tree"
  shows "construct_log_pm_dict iter1 s dmax beta tree pe = construct_log_pm_dict iter2 s dmax beta tree pe"
proof -
  have fin: "finite (nodes tree)" using assms(3) unfolding tree_wf_def by blast
  have "log_pm_level iter1 dmax beta tree pe pm sz = log_pm_level iter2 dmax beta tree pe pm sz"
    for pm sz
    using log_pm_level_eq [OF assms(1) fin tree_wf_child_length [OF assms(3)]]
      log_pm_level_eq [OF assms(2) fin tree_wf_child_length [OF assms(3)]]
    by simp
  then show ?thesis unfolding construct_log_pm_dict_def by (intro for_each_cong)
qed

lemma construct_tau_max_iter:
  assumes "set_iteration iter1" "set_iteration iter2"
  shows "construct_tau_max iter1 s dmax sample initial_ctxt
           = construct_tau_max iter2 s dmax sample initial_ctxt"
proof (cases "for_each (scan_position dmax (initial_ctxt @ sample))
                [length initial_ctxt..<length (initial_ctxt @ sample)]
                (Tree_init s, [[] \<mapsto> int (length sample)])")
  case (Inl e)
  then show ?thesis by (simp add: construct_tau_max_def Let_def)
next
  case (Inr tc)
  have "scan_ok s dmax tc" using scan_all_ok [OF Inr] .
  then have "finite (nodes (fst tc))" unfolding scan_ok_def tree_wf_def by blast
  then have A: "set (iter1 (nodes (fst tc))) = nodes (fst tc)"
    and B: "set (iter2 (nodes (fst tc))) = nodes (fst tc)"
    using assms unfolding set_iteration_def by simp_all
  have "fold (\<lambda>node c. fill_zero s c node) (iter1 (nodes (fst tc))) (snd tc)
           = fold (\<lambda>node c. fill_zero s c node) (iter2 (nodes (fst tc))) (snd tc)"
    unfolding fold_fill_zero A B ..
  then show ?thesis using Inr by (simp add: construct_tau_max_def Let_def)
qed

lemma bct_iter:
  assumes "set_iteration iter1" "set_iteration iter2"
  shows "bct iter1 depth s dmax beta sample initial_ctxt
           = bct iter2 depth s dmax beta sample initial_ctxt"
proof (cases "construct_tau_max iter1 s dmax sample initial_ctxt")
  case (Inl e)
  then show ?thesis using construct_tau_max_iter [OF assms, of s dmax sample initial_ctxt]
    by (simp add: bct_def)
next
  case (Inr tc)
  then have c2: "construct_tau_max iter2 s dmax sample initial_ctxt = Inr tc"
    using construct_tau_max_iter [OF assms, of s dmax sample initial_ctxt] by simp
  have "construct_tau_max iter1 s dmax sample initial_ctxt = Inr (fst tc, snd tc)"
    using Inr by simp
  then have wf: "tree_wf (fst tc)" by (rule construct_tau_max_ok)
  then have fin: "finite (nodes (fst tc))" unfolding tree_wf_def by blast
  have pe: "log_pe_dict_of iter1 s (snd tc) (fst tc) = log_pe_dict_of iter2 s (snd tc) (fst tc)"
    unfolding log_pe_dict_of_eq [OF assms(1) fin] log_pe_dict_of_eq [OF assms(2) fin] ..
  have pm: "construct_log_pm_dict iter1 s dmax beta (fst tc) d
          = construct_log_pm_dict iter2 s dmax beta (fst tc) d" for d
    by (rule construct_log_pm_dict_iter [OF assms wf])
  show ?thesis unfolding bct_def Inr c2 sum.case pe pm ..
qed

lemma bct_queue_Nil: "bct_queue depth beta pe pm [] tau = Some (Inr tau)"
  by (subst bct_queue.simps) simp

lemma bct_queue_Cons:
  "bct_queue depth beta pe pm (u # rest) tau =
     (case bct_visit depth beta pe pm tau u rest of
        Inl err \<Rightarrow> Some (Inl err)
      | Inr qt \<Rightarrow> bct_queue depth beta pe pm (fst qt) (snd qt))"
  by (subst bct_queue.simps) simp

lemma bct_visit_leaf: "edges tau u = None \<Longrightarrow> bct_visit depth beta pe pm tau u rest = Inr (rest, tau)"
  by (simp add: bct_visit_def)

lemma bct_visit_inner:
  assumes "edges tau u = Some children" "\<forall>c\<in>set children. pm c \<noteq> None" "pe u = Some p"
  shows "bct_visit depth beta pe pm tau u rest =
           (if ln beta + p > ln (1 - beta) + (\<Sum>c\<leftarrow>children. the (pm c))
            then (case prune_at_node depth tau u of
                    None \<Rightarrow> Inl RecursionError
                  | Some tau' \<Rightarrow> Inr (rest, tau'))
            else Inr (rest @ children, tau))"
  using assms by (simp add: bct_visit_def sum_child_log_pm_eq)

lemma weight_children:
  assumes "s = [] \<or> length u < dm"
  shows "(\<Sum>c\<leftarrow>map (\<lambda>b. b # u) s. Suc (length s) ^ (dm - length c))
           < Suc (length s) ^ (dm - length u)"
proof -
  have "(\<Sum>c\<leftarrow>map (\<lambda>b. b # u) s. Suc (length s) ^ (dm - length c))
          = (\<Sum>b\<leftarrow>s. Suc (length s) ^ (dm - Suc (length u)))"
    by (simp add: comp_def)
  also have "\<dots> = length s * Suc (length s) ^ (dm - Suc (length u))"
    by (simp add: sum_list_triv)
  also have "\<dots> < Suc (length s) ^ (dm - length u)"
  proof (cases "s = []")
    case True
    then show ?thesis by simp
  next
    case False
    then have "length u < dm" using assms by simp
    then have "dm - length u = Suc (dm - Suc (length u))" by simp
    then show ?thesis by simp
  qed
  finally show ?thesis .
qed

lemma bct_queue_terminates:
  assumes pe: "\<forall>u\<in>nodes tau0. pe u \<noteq> None" and pm: "\<forall>u\<in>nodes tau0. pm u \<noteq> None"
    and len: "\<forall>u\<in>nodes tau0. length u \<le> dm" and depth: "dm + 2 \<le> depth"
  shows "tree_wf tau \<Longrightarrow> nodes tau \<subseteq> nodes tau0 \<Longrightarrow> tree_s tau = s \<Longrightarrow>
    \<exists>tau'. bct_queue depth beta pe pm q tau = Some (Inr tau')
          \<and> tree_wf tau' \<and> nodes tau' \<subseteq> nodes tau \<and> dom (edges tau') \<subseteq> dom (edges tau)"
proof (induction "\<Sum>u\<leftarrow>q. Suc (length s) ^ (dm - length u)" arbitrary: q tau rule: less_induct)
  case less
  let ?w = "\<lambda>u. Suc (length s) ^ (dm - length u)"
  let ?mu = "\<lambda>q. \<Sum>u\<leftarrow>q. ?w u"
  show ?case
  proof (cases q)
    case Nil
    then show ?thesis using less.prems by (simp add: bct_queue_Nil)
  next
    case (Cons u rest)
    have wpos: "0 < ?w u" by simp
    have mu_rest: "?mu rest < ?mu q" using Cons wpos by simp
    show ?thesis
    proof (cases "edges tau u")
      case None
      have "bct_queue depth beta pe pm q tau = bct_queue depth beta pe pm rest tau"
        unfolding Cons bct_queue_Cons bct_visit_leaf [OF None] by simp
      show ?thesis unfolding \<open>bct_queue depth beta pe pm q tau = bct_queue depth beta pe pm rest tau\<close>
        by (rule less.hyps [OF mu_rest less.prems])
    next
      case (Some cs)
      have cs: "cs = map (\<lambda>b. b # u) s"
        using less.prems(1,3) Some unfolding tree_wf_def by blast
      have un: "u \<in> nodes tau" using less.prems(1) Some unfolding tree_wf_def by blast
      then have "u \<in> nodes tau0" using less.prems(2) by (rule subsetD [rotated])
      then have "pe u \<noteq> None" using pe by (rule bspec [rotated])
      then obtain p where p: "pe u = Some p" by auto
      have ch: "\<forall>c\<in>set cs. pm c \<noteq> None"
      proof
        fix c assume "c \<in> set cs"
        then have "c \<in> nodes tau" using tree_wf_children [OF less.prems(1) Some] by simp
        then have "c \<in> nodes tau0" using less.prems(2) by (rule subsetD [rotated])
        then show "pm c \<noteq> None" using pm by (rule bspec [rotated])
      qed
      have v: "bct_visit depth beta pe pm tau u rest =
           (if ln beta + p > ln (1 - beta) + (\<Sum>c\<leftarrow>cs. the (pm c))
            then (case prune_at_node depth tau u of
                    None \<Rightarrow> Inl RecursionError
                  | Some tau' \<Rightarrow> Inr (rest, tau'))
            else Inr (rest @ cs, tau))"
        using Some ch p by (rule bct_visit_inner)
      show ?thesis
      proof (cases "ln beta + p > ln (1 - beta) + (\<Sum>c\<leftarrow>cs. the (pm c))")
        case True
        have bound: "\<forall>x\<in>nodes tau. length x \<le> dm"
        proof
          fix x assume "x \<in> nodes tau"
          then have "x \<in> nodes tau0" using less.prems(2) by (rule subsetD [rotated])
          then show "length x \<le> dm" using len by (rule bspec [rotated])
        qed
        have ok: "below_ok (Suc dm) tau u" by (rule tree_wf_below_ok [OF less.prems(1) bound])
        obtain d where d: "depth = Suc d" "Suc dm \<le> d + length u"
          using depth by (cases depth) auto
        have pr: "prune_at_node depth tau u = Some (subtree_removed tau u)"
          unfolding d(1) by (rule prune_at_node_removes [OF ok d(2)])
        let ?t = "subtree_removed tau u"
        have eq: "bct_queue depth beta pe pm q tau = bct_queue depth beta pe pm rest ?t"
          unfolding Cons bct_queue_Cons v using True pr by simp
        have wt: "tree_wf ?t" by (rule tree_wf_subtree_removed [OF less.prems(1)])
        have n: "nodes ?t \<subseteq> nodes tau" by (auto simp: subtree_removed_def)
        have e: "dom (edges ?t) \<subseteq> dom (edges tau)"
          by (auto simp: subtree_removed_def split: if_splits)
        have ts: "tree_s ?t = s" using less.prems(3) by (simp add: subtree_removed_def)
        have n0: "nodes ?t \<subseteq> nodes tau0" using n less.prems(2) by (rule subset_trans)
        from less.hyps [OF mu_rest wt n0 ts]
        obtain tau' where r: "bct_queue depth beta pe pm rest ?t = Some (Inr tau')"
          "tree_wf tau'" "nodes tau' \<subseteq> nodes ?t" "dom (edges tau') \<subseteq> dom (edges ?t)"
          by (elim exE conjE)
        have "nodes tau' \<subseteq> nodes tau" using r(3) n by (rule subset_trans)
        moreover have "dom (edges tau') \<subseteq> dom (edges tau)" using r(4) e by (rule subset_trans)
        ultimately show ?thesis unfolding eq using r(1,2) by (intro exI [of _ tau'] conjI)
      next
        case False
        have q': "bct_queue depth beta pe pm q tau = bct_queue depth beta pe pm (rest @ cs) tau"
          unfolding Cons bct_queue_Cons v using False by simp
        have "s = [] \<or> length u < dm"
        proof (cases s)
          case Nil
          then show ?thesis by simp
        next
          case (Cons b s')
          then have "b # u \<in> set cs" by (simp add: cs)
          then have "b # u \<in> nodes tau" using tree_wf_children [OF less.prems(1) Some] by simp
          then have "b # u \<in> nodes tau0" using less.prems(2) by (rule subsetD [rotated])
          then have "length (b # u) \<le> dm" using len by (rule bspec [rotated])
          then show ?thesis by simp
        qed
        then have "?mu cs < ?w u" unfolding cs by (rule weight_children)
        then have "?mu (rest @ cs) < ?mu q" using Cons by simp
        then show ?thesis unfolding q' by (rule less.hyps [OF _ less.prems])
      qed
    qed
  qed
qed

lemma construct_tau_max_counter_defined:
  assumes "construct_tau_max iter s dmax sample initial_ctxt = Inr (tree, counter)"
    and "set_iteration iter" and "u \<in> nodes tree" and "b \<in> set s"
  shows "counter (u @ [b]) \<noteq> None"
proof -
  obtain c where fill: "counter = fold (\<lambda>node c. fill_zero s c node) (iter (nodes tree)) c"
    using assms(1) unfolding construct_tau_max_Inr by blast
  have "tree_wf tree" using construct_tau_max_ok [OF assms(1)] by blast
  then have "finite (nodes tree)" unfolding tree_wf_def by blast
  then have it: "set (iter (nodes tree)) = nodes tree"
    using assms(2) unfolding set_iteration_def by blast
  show ?thesis unfolding fill fold_fill_zero it using assms(3,4) by (auto split: option.splits)
qed

lemma log_pe_dict_of_total:
  assumes "construct_tau_max iter s dmax sample initial_ctxt = Inr (tree, counter)"
    and "set_iteration iter"
  shows "\<exists>pe. log_pe_dict_of iter s counter tree = Inr pe
            \<and> (\<forall>u\<in>nodes tree. pe u = Some (projr (calc_log_pe s counter u)))"
proof -
  have "tree_wf tree" using construct_tau_max_ok [OF assms(1)] by blast
  then have fin: "finite (nodes tree)" unfolding tree_wf_def by blast
  have "\<not> isl (calc_log_pe s counter u)" if "u \<in> nodes tree" for u
  proof -
    have "\<forall>b\<in>set s. counter (u @ [b]) \<noteq> None"
      using construct_tau_max_counter_defined [OF assms that] by blast
    then obtain v where "calc_log_pe s counter u = Inr v" using calc_log_pe_defined by blast
    then show ?thesis by simp
  qed
  then have "\<not> (\<exists>u\<in>nodes tree. isl (calc_log_pe s counter u))" by blast
  then show ?thesis unfolding log_pe_dict_of_eq [OF assms(2) fin] by simp
qed

lemma construct_log_pm_dict_total:
  assumes "set_iteration iter" "tree_wf tree" "\<forall>u\<in>nodes tree. pe u \<noteq> None"
  shows "\<exists>pm. construct_log_pm_dict iter s (int dm) beta tree pe = Inr pm
            \<and> dom pm = {u \<in> nodes tree. length u \<le> dm}"
proof -
  from log_pm_levels [OF assms le_refl, of dm beta]
  obtain pm where run: "for_each (log_pm_level iter (int dm) beta tree pe)
              (map int (rev [Suc dm - Suc dm..<Suc dm])) Map.empty = Inr pm"
    and d: "dom pm = {u \<in> nodes tree. Suc dm - Suc dm \<le> length u \<and> length u \<le> dm}"
    by (elim exE conjE)
  have "construct_log_pm_dict iter s (int dm) beta tree pe = Inr pm"
    using run by (simp add: construct_log_pm_dict_def upto_int_nat rev_map)
  then show ?thesis using d by simp
qed

lemma bct_total:
  assumes si: "set_iteration iter" and ic: "dm \<le> length initial_ctxt"
    and sym: "set (initial_ctxt @ sample) \<subseteq> set s" and depth: "dm + 2 \<le> depth"
  shows "\<exists>tmax counter tau pm_root.
      construct_tau_max iter s (int dm) sample initial_ctxt = Inr (tmax, counter)
    \<and> bct iter depth s (int dm) beta sample initial_ctxt = Some (Inr (tau, pm_root))
    \<and> tree_wf tau \<and> nodes tau \<subseteq> nodes tmax \<and> dom (edges tau) \<subseteq> dom (edges tmax)"
proof -
  obtain tmax counter where c: "construct_tau_max iter s (int dm) sample initial_ctxt = Inr (tmax, counter)"
    using construct_tau_max_succeeds [OF ic sym] by blast
  note ok = construct_tau_max_ok [OF c]
  have len: "\<forall>u\<in>nodes tmax. length u \<le> dm" using ok(3) by auto
  obtain pe where pe: "log_pe_dict_of iter s counter tmax = Inr pe"
    and ped: "\<forall>u\<in>nodes tmax. pe u = Some (projr (calc_log_pe s counter u))"
    using log_pe_dict_of_total [OF c si] by blast
  have ped': "\<forall>u\<in>nodes tmax. pe u \<noteq> None" using ped by simp
  obtain pm where pm: "construct_log_pm_dict iter s (int dm) beta tmax pe = Inr pm"
    and pmd: "dom pm = {u \<in> nodes tmax. length u \<le> dm}"
    using construct_log_pm_dict_total [OF si ok(1) ped'] by blast
  have pmd': "\<forall>u\<in>nodes tmax. pm u \<noteq> None" using pmd len by blast
  obtain tau where q: "bct_queue depth beta pe pm [[]] tmax = Some (Inr tau)"
    and t: "tree_wf tau" "nodes tau \<subseteq> nodes tmax" "dom (edges tau) \<subseteq> dom (edges tmax)"
    using bct_queue_terminates [OF ped' pmd' len depth ok(1) subset_refl ok(2)] by blast
  have "[] \<in> nodes tmax" using ok(1) unfolding tree_wf_def by blast
  then obtain v where v: "pm [] = Some v" using pmd' by blast
  have "bct iter depth s (int dm) beta sample initial_ctxt = Some (Inr (tau, exp v))"
    unfolding bct_def c by (simp add: pe pm q v)
  then show ?thesis using c t by blast
qed

lemma set_iteration_singleton:
  assumes "set_iteration iter"
  shows "iter {x} = [x]"
proof -
  have s: "set (iter {x}) = {x}" and d: "distinct (iter {x})"
    using assms unfolding set_iteration_def by simp_all
  show ?thesis
  proof (cases "iter {x}")
    case Nil
    then show ?thesis using s by simp
  next
    case (Cons y ys)
    then have "y = x" using s by auto
    moreover have "ys = []"
    proof (cases ys)
      case Nil
      then show ?thesis .
    next
      case (Cons z zs)
      then have "z \<in> set (iter {x})" "z \<noteq> y" using \<open>iter {x} = y # ys\<close> d by auto
      then show ?thesis using s \<open>y = x\<close> by auto
    qed
    ultimately show ?thesis using Cons by simp
  qed
qed

lemma for_each_tree_unchanged:
  assumes "\<And>tc x. x \<in> set xs \<Longrightarrow> \<exists>c. body tc x = Inr (fst tc, c)"
  shows "\<exists>c. for_each body xs tc = Inr (fst tc, c)"
  using assms
proof (induction xs arbitrary: tc)
  case Nil
  show ?case by (cases tc) simp
next
  case (Cons x xs)
  obtain c where c: "body tc x = Inr (fst tc, c)" using Cons.prems [of x tc] by auto
  have "\<exists>c'. for_each body xs (fst tc, c) = Inr (fst (fst tc, c), c')"
    by (rule Cons.IH) (use Cons.prems in auto)
  then show ?case using c by simp
qed

lemma scan_depth_zero: "\<exists>c. scan_depth cur tc 0 = Inr (fst tc, c)"
  by (simp add: scan_depth_def Let_def)

lemma scan_position_shallow:
  assumes "dmax \<le> 0"
  shows "\<exists>c. scan_position dmax joint tc i = Inr (fst tc, c)"
proof (cases "dmax = 0")
  case True
  have l: "[0..0::int] = [0]" by (simp add: upto_rec1)
  obtain c where "scan_depth (py_slice joint (int i - 0) (int i + 1)) tc 0 = Inr (fst tc, c)"
    using scan_depth_zero by blast
  then show ?thesis by (simp add: scan_position_def True l)
next
  case False
  then have "[0..dmax] = []" using assms by simp
  then show ?thesis by (cases tc) (simp add: scan_position_def)
qed

lemma construct_tau_max_shallow:
  assumes "dmax \<le> 0" "set_iteration iter"
  shows "\<exists>counter. construct_tau_max iter s dmax sample initial_ctxt = Inr (Tree_init s, counter)"
proof -
  obtain c where "for_each (scan_position dmax (initial_ctxt @ sample))
       [length initial_ctxt..<length (initial_ctxt @ sample)]
       (Tree_init s, [[] \<mapsto> int (length sample)]) = Inr (Tree_init s, c)"
    using for_each_tree_unchanged [where body = "scan_position dmax (initial_ctxt @ sample)",
        OF scan_position_shallow [OF assms(1)]]
    by fastforce
  then show ?thesis by (simp add: construct_tau_max_def Let_def)
qed

lemma bct_queue_root_leaf:
  "bct_queue depth beta pe pm [[]] (Tree_init s) = Some (Inr (Tree_init s))"
  by (simp add: bct_queue_Cons bct_queue_Nil bct_visit_leaf Tree_init_def)

lemma log_pe_dict_of_root:
  assumes "set_iteration iter" "calc_log_pe s counter [] = Inr v"
  shows "log_pe_dict_of iter s counter (Tree_init s) = Inr [[] \<mapsto> v]"
  using assms(2) set_iteration_singleton [OF assms(1), of "[]"]
  by (simp add: log_pe_dict_of_def Tree_init_def)

lemma bct_shallow:
  assumes si: "set_iteration iter" and d: "dmax \<le> 0"
  shows "\<exists>counter v. construct_tau_max iter s dmax sample initial_ctxt = Inr (Tree_init s, counter)
      \<and> calc_log_pe s counter [] = Inr v
      \<and> bct iter depth s dmax beta sample initial_ctxt =
          (if dmax = 0 then Some (Inr (Tree_init s, exp v)) else Some (Inl KeyError))"
proof -
  obtain counter where c: "construct_tau_max iter s dmax sample initial_ctxt = Inr (Tree_init s, counter)"
    using construct_tau_max_shallow [OF d si] by blast
  have r: "[] \<in> nodes (Tree_init s)" by (simp add: Tree_init_def)
  have "\<forall>b\<in>set s. counter ([] @ [b]) \<noteq> None"
    using construct_tau_max_counter_defined [OF c si r] by blast
  then obtain v where v: "calc_log_pe s counter [] = Inr v" using calc_log_pe_defined by blast
  have pe: "log_pe_dict_of iter s counter (Tree_init s) = Inr [[] \<mapsto> v]"
    by (rule log_pe_dict_of_root [OF si v])
  have it: "iter (nodes (Tree_init s)) = [[]]"
    using set_iteration_singleton [OF si, of "[]"] by (simp add: Tree_init_def)
  have pm: "construct_log_pm_dict iter s dmax beta (Tree_init s) [[] \<mapsto> v] =
      (if dmax = 0 then Inr [[] \<mapsto> v] else Inr Map.empty)"
  proof (cases "dmax = 0")
    case True
    have "[0..0::int] = [0]" by (simp add: upto_rec1)
    then show ?thesis
      by (simp add: True construct_log_pm_dict_def log_pm_level_def it log_pm_node_def)
  next
    case False
    then have "[0..dmax] = []" using d by simp
    then show ?thesis using False by (simp add: construct_log_pm_dict_def)
  qed
  have "bct iter depth s dmax beta sample initial_ctxt =
          (if dmax = 0 then Some (Inr (Tree_init s, exp v)) else Some (Inl KeyError))"
    unfolding bct_def c by (simp add: pe pm bct_queue_root_leaf)
  then show ?thesis using c v by blast
qed

lemma set_iteration_rev_sorted: "set_iteration (\<lambda>A. rev (sorted_list_of_set A))"
  by (simp add: set_iteration_def)

text \<open>
  Claim C8. \<open>bct\<close> is deterministic. The model is a function of its arguments; the one
  thing a run of the program does not fix is the order in which the set \<open>tree.nodes\<close> is
  iterated. Whatever that order is in two runs, on every input (valid or not) the two runs
  give the same result: the same exception, or the same tree (nodes and edges) and the same
  \<open>pm_root\<close>; and \<open>construct_tau_max\<close> gives the same tree and the same counts.
\<close>

theorem bct_deterministic:
  assumes "set_iteration iter1" and "set_iteration iter2"
  shows "bct iter1 depth s dmax beta sample initial_ctxt
           = bct iter2 depth s dmax beta sample initial_ctxt
       \<and> construct_tau_max iter1 s dmax sample initial_ctxt
           = construct_tau_max iter2 s dmax sample initial_ctxt"
  using bct_iter [OF assms] construct_tau_max_iter [OF assms] by blast

theorem bct_deterministic_witness:
  "bct sorted_list_of_set 5 ''ab'' 1 (3/4) ''ab'' ''a''
     = bct (\<lambda>A. rev (sorted_list_of_set A)) 5 ''ab'' 1 (3/4) ''ab'' ''a''
   \<and> construct_tau_max sorted_list_of_set ''ab'' 1 ''ab'' ''a''
     = construct_tau_max (\<lambda>A. rev (sorted_list_of_set A)) ''ab'' 1 ''ab'' ''a''"
  using bct_deterministic [OF set_iteration_sorted set_iteration_rev_sorted] by blast

text \<open>
  Claim C7, as amended. \<open>bct\<close> contains no check of its parameters: the docstring leaves
  the preconditions to the caller. What holds is that on an input which meets them
  (\<open>0 < beta < 1\<close>, \<open>0 \<le> dmax \<le> len(initial_ctxt)\<close>, every symbol of the initial context and
  of the sample in the alphabet), and with a recursion limit above \<open>dmax + 1\<close>, \<open>bct\<close>
  raises nothing, its loops end, and it returns a tree and \<open>pm_root\<close>.
\<close>

theorem bct_returns_on_valid_input:
  assumes "set_iteration iter" and "dm \<le> length initial_ctxt"
    and "set (initial_ctxt @ sample) \<subseteq> set s" and "dm + 2 \<le> depth"
    and "0 < beta" and "beta < 1"
  shows "\<exists>tau pm_root. bct iter depth s (int dm) beta sample initial_ctxt = Some (Inr (tau, pm_root))"
  using bct_total [OF assms(1-4)] by blast

theorem bct_returns_on_valid_input_witness:
  "\<exists>tau pm_root. bct sorted_list_of_set 5 ''ab'' (int 1) (3/4) ''ab'' ''a'' = Some (Inr (tau, pm_root))"
proof -
  have a: "1 \<le> length ''a''" "set (''a'' @ ''ab'') \<subseteq> set ''ab''" "1 + 2 \<le> (5::nat)"
    "0 < (3/4::real)" "(3/4::real) < 1" by auto
  show ?thesis by (rule bct_returns_on_valid_input [OF set_iteration_sorted a])
qed

text \<open>
  Claim C7 as stated fails. With the alphabet \<open>"a"\<close> and the sample \<open>"b"\<close>, whose symbol is
  outside the alphabet, \<open>bct\<close> returns a result instead of rejecting the call; with
  \<open>dmax = -1\<close> the tree and the counts are built and the call ends in the \<open>KeyError\<close> of the
  last line, \<open>log_pm_dict[""]\<close>.
\<close>

theorem bct_validation_counterexample:
  "CHR ''b'' \<notin> set ''a''
   \<and> map_option isl (bct sorted_list_of_set 5 ''a'' 0 (1/2) ''b'' []) = Some False
   \<and> bct sorted_list_of_set 5 ''a'' (- 1) (1/2) ''a'' [] = Some (Inl KeyError)
   \<and> \<not> isl (construct_tau_max sorted_list_of_set ''a'' (- 1) ''a'' [])"
proof -
  have 1: "map_option isl (bct sorted_list_of_set 5 ''a'' 0 (1/2) ''b'' []) = Some False"
    using bct_shallow [OF set_iteration_sorted, of 0 "''a''" "''b''" "[]" 5 "1/2"] by auto
  have 2: "bct sorted_list_of_set 5 ''a'' (- 1) (1/2) ''a'' [] = Some (Inl KeyError)
      \<and> \<not> isl (construct_tau_max sorted_list_of_set ''a'' (- 1) ''a'' [])"
    using bct_shallow [OF set_iteration_sorted, of "- 1" "''a''" "''a''" "[]" 5 "1/2"] by auto
  show ?thesis using 1 2 by simp
qed

text \<open>
  Claim C9. For \<open>dmax = 0\<close> and any sample and initial context, \<open>construct_tau_max\<close> returns
  the tree with the root only and no edges, the root's own counter entry being
  \<open>len(sample)\<close>; \<open>bct\<close> returns that same tree and \<open>pm_root = exp (log_pe "")\<close>; the pruning
  loop dequeues the root, finds a leaf and ends without any decision. For a sample over an
  alphabet of distinct symbols the transition counts from which \<open>log_pe ""\<close> is computed add
  up to the seeded count \<open>len(sample)\<close>.
\<close>

theorem bct_dmax_zero:
  assumes si: "set_iteration iter"
  shows "\<exists>counter pe.
      construct_tau_max iter s 0 sample initial_ctxt
        = Inr (\<lparr>tree_s = s, nodes = {[]}, edges = Map.empty\<rparr>, counter)
    \<and> counter [] = Some (int (length sample))
    \<and> calc_log_pe s counter [] = Inr pe
    \<and> bct iter depth s 0 beta sample initial_ctxt
        = Some (Inr (\<lparr>tree_s = s, nodes = {[]}, edges = Map.empty\<rparr>, exp pe))
    \<and> (\<forall>log_pe_dict log_pm_dict.
          bct_queue depth beta log_pe_dict log_pm_dict [[]]
              \<lparr>tree_s = s, nodes = {[]}, edges = Map.empty\<rparr>
            = Some (Inr \<lparr>tree_s = s, nodes = {[]}, edges = Map.empty\<rparr>))
    \<and> (distinct s \<and> set sample \<subseteq> set s \<longrightarrow>
          (\<Sum>b\<leftarrow>s. the (counter [b])) = int (length sample))"
proof -
  let ?joint = "initial_ctxt @ sample"
  let ?ps = "[length initial_ctxt..<length ?joint]"
  obtain counter v where c: "construct_tau_max iter s 0 sample initial_ctxt = Inr (Tree_init s, counter)"
    and v: "calc_log_pe s counter [] = Inr v"
    and b: "bct iter depth s 0 beta sample initial_ctxt = Some (Inr (Tree_init s, exp v))"
    using bct_shallow [OF si, of 0 s sample initial_ctxt depth beta] by auto
  have c': "construct_tau_max iter s (int 0) sample initial_ctxt = Inr (Tree_init s, counter)"
    using c by simp
  obtain c0 where scan: "for_each (scan_position (int 0) ?joint) ?ps
        (Tree_init s, [[] \<mapsto> int (length sample)]) = Inr (Tree_init s, c0)"
    and fill: "counter = fold (\<lambda>node c. fill_zero s c node) (iter (nodes (Tree_init s))) c0"
    using c' unfolding construct_tau_max_Inr by blast
  have ps: "\<forall>i\<in>set ?ps. 0 \<le> i \<and> i < length ?joint" by auto
  have "c0 [] = Some (int (length sample))" using scan_counter_nil [OF scan ps] by simp
  then have root: "counter [] = Some (int (length sample))"
    unfolding fill fold_fill_zero by simp
  have total: "(\<Sum>b\<leftarrow>s. the (counter [b])) = int (length sample)"
    if "distinct s \<and> set sample \<subseteq> set s"
  proof -
    have r: "[] \<in> nodes (Tree_init s)" by (simp add: Tree_init_def)
    have z: "0 \<le> length initial_ctxt" by simp
    have "(\<Sum>b\<leftarrow>s. the (counter ([] @ [b]))) =
        int (length (filter (\<lambda>i. past_at ?joint i (length ([]::string)) = []) ?ps))"
      using scan_counts [OF c' si z _ _ r] that by blast
    then show ?thesis by (simp add: past_at_zero)
  qed
  show ?thesis
    using c v b root total bct_queue_root_leaf [of depth beta _ _ s]
    unfolding Tree_init_def by blast
qed

theorem bct_dmax_zero_witness:
  "\<exists>counter pe.
      construct_tau_max sorted_list_of_set ''ab'' 0 ''ab'' []
        = Inr (\<lparr>tree_s = ''ab'', nodes = {[]}, edges = Map.empty\<rparr>, counter)
    \<and> counter [] = Some 2
    \<and> calc_log_pe ''ab'' counter [] = Inr pe
    \<and> bct sorted_list_of_set 3 ''ab'' 0 (3/4) ''ab'' []
        = Some (Inr (\<lparr>tree_s = ''ab'', nodes = {[]}, edges = Map.empty\<rparr>, exp pe))
    \<and> (\<Sum>b\<leftarrow>''ab''. the (counter [b])) = 2"
proof -
  have d: "distinct ''ab'' \<and> set ''ab'' \<subseteq> set ''ab''" by simp
  from bct_dmax_zero [OF set_iteration_sorted, of "''ab''" "''ab''" "[]" 3 "3/4"]
  show ?thesis
  proof (elim exE conjE, goal_cases)
    case (1 counter pe)
    have "(\<Sum>b\<leftarrow>''ab''. the (counter [b])) = 2" using 1(6) d by simp
    moreover have "counter [] = Some 2" using 1(2) by simp
    ultimately show ?case using 1(1,3,4) by blast
  qed
qed

end
